theory Spec2Isabelle
  imports Main
begin

section \<open>The Google Maps scraper of content.js\<close>

text \<open>
  The content script holds one \<open>GoogleMapsScraper\<close> object and a message listener.
  The object reads the host page, clicks feed entries, and collects one record per place.
  The host page is not part of the program: every read of the page is an input of the
  model (a document snapshot, a list of visible cards, the text of a span), supplied by
  the caller in the order in which the script reads it. Everything the script itself
  computes from those reads is a function below, under the name it has in the source.
\<close>

subsection \<open>JavaScript strings\<close>

text \<open>
  A string is a list of code units; the model covers the code units below 256.
  \<open>isSpace\<close> is the white space of \<open>String.prototype.trim\<close> and of the regular
  expression class \<open>\s\<close> in that range: tab, line feed, vertical tab, form feed,
  carriage return, space and the no-break space.
\<close>

definition isSpace :: "char \<Rightarrow> bool" where
  "isSpace c = (c \<in> set [CHR 0x09, CHR 0x0A, CHR 0x0B, CHR 0x0C, CHR 0x0D, CHR 0x20, CHR 0xA0])"

definition isDigit :: "char \<Rightarrow> bool" where
  "isDigit c = (c \<in> set ''0123456789'')"

definition trim :: "string \<Rightarrow> string" where
  "trim s = rev (dropWhile isSpace (rev (dropWhile isSpace s)))"

text \<open>\<open>a || b\<close> on strings: the empty string is the only falsy string.\<close>

definition js_or :: "string \<Rightarrow> string \<Rightarrow> string" where
  "js_or a b = (if a \<noteq> [] then a else b)"

text \<open>\<open>s.includes(sub)\<close>.\<close>

fun str_includes :: "string \<Rightarrow> string \<Rightarrow> bool" where
  "str_includes sub [] = (sub = [])"
| "str_includes sub (c # cs) = (take (length sub) (c # cs) = sub \<or> str_includes sub cs)"

text \<open>\<open>s.split(sep)\<close> for a separator of one code unit: never an empty array.\<close>

fun str_split :: "char \<Rightarrow> string \<Rightarrow> string list" where
  "str_split sep [] = [[]]"
| "str_split sep (c # cs) =
     (if c = sep then [] # str_split sep cs
      else (case str_split sep cs of
              [] \<Rightarrow> [[c]]
            | piece # pieces \<Rightarrow> (c # piece) # pieces))"

text \<open>\<open>pieces.join(sep)\<close>.\<close>

fun str_join :: "string \<Rightarrow> string list \<Rightarrow> string" where
  "str_join sep [] = []"
| "str_join sep [piece] = piece"
| "str_join sep (piece # next # pieces) = piece @ sep @ str_join sep (next # pieces)"

text \<open>
  \<open>getUniqueUrl\<close>: the empty string for a falsy url, else \<open>url.split('?')[0]\<close>.
  The array of \<open>split\<close> always has a first element; the \<open>[]\<close> case is never taken.
\<close>

definition getUniqueUrl :: "string \<Rightarrow> string" where
  "getUniqueUrl u =
     (if u = [] then []
      else (case str_split (CHR ''?'') u of [] \<Rightarrow> [] | piece # _ \<Rightarrow> piece))"

subsection \<open>The phone patterns\<close>

text \<open>
  The scan pattern of \<open>extractPhone\<close> and \<open>extractPhoneFromCard\<close> is
  \<^verbatim>\<open>/[\+\(]?\d[\d\s\-\(\)]{6,}/\<close>. \<open>phoneBody\<close> matches \<^verbatim>\<open>\d[\d\s\-\(\)]{6,}\<close> at the
  start of its argument: the repetition is greedy and nothing follows it, so it takes
  the longest run. \<open>phoneAt\<close> puts the optional sign in front: the regular expression
  tries the sign first and falls back to the empty match. \<open>phoneSearch\<close> is the
  leftmost match, the value of \<open>text.match(...)\<close> at index 0.
\<close>

definition phoneChar :: "char \<Rightarrow> bool" where
  "phoneChar c = (isDigit c \<or> isSpace c \<or> c = CHR ''-'' \<or> c = CHR ''('' \<or> c = CHR '')'')"

definition phoneBody :: "string \<Rightarrow> string option" where
  "phoneBody s =
     (case s of
        [] \<Rightarrow> None
      | d # rest \<Rightarrow>
          if isDigit d \<and> 6 \<le> length (takeWhile phoneChar rest)
          then Some (d # takeWhile phoneChar rest) else None)"

definition phoneAt :: "string \<Rightarrow> string option" where
  "phoneAt s =
     (case s of
        [] \<Rightarrow> None
      | c # rest \<Rightarrow>
          if c = CHR ''+'' \<or> c = CHR ''(''
          then (case phoneBody rest of Some m \<Rightarrow> Some (c # m) | None \<Rightarrow> phoneBody s)
          else phoneBody s)"

fun phoneSearch :: "string \<Rightarrow> string option" where
  "phoneSearch [] = None"
| "phoneSearch (c # cs) =
     (case phoneAt (c # cs) of Some m \<Rightarrow> Some m | None \<Rightarrow> phoneSearch cs)"

text \<open>
  \<open>cleanPhone\<close> uses \<^verbatim>\<open>/[\+\(]?[\d\s\-\(\)\.]{7,}/\<close>, then removes a trailing run of
  \<^verbatim>\<open>[\s\-\.]\<close> and trims.
\<close>

definition cleanChar :: "char \<Rightarrow> bool" where
  "cleanChar c = (phoneChar c \<or> c = CHR ''.'')"

definition cleanBody :: "string \<Rightarrow> string option" where
  "cleanBody s =
     (if 7 \<le> length (takeWhile cleanChar s) then Some (takeWhile cleanChar s) else None)"

definition cleanAt :: "string \<Rightarrow> string option" where
  "cleanAt s =
     (case s of
        [] \<Rightarrow> None
      | c # rest \<Rightarrow>
          if c = CHR ''+'' \<or> c = CHR ''(''
          then (case cleanBody rest of Some m \<Rightarrow> Some (c # m) | None \<Rightarrow> cleanBody s)
          else cleanBody s)"

fun cleanSearch :: "string \<Rightarrow> string option" where
  "cleanSearch [] = None"
| "cleanSearch (c # cs) =
     (case cleanAt (c # cs) of Some m \<Rightarrow> Some m | None \<Rightarrow> cleanSearch cs)"

definition trailingSep :: "char \<Rightarrow> bool" where
  "trailingSep c = (isSpace c \<or> c = CHR ''-'' \<or> c = CHR ''.'')"

definition cleanPhone :: "string \<Rightarrow> string" where
  "cleanPhone text =
     (if text = [] then []
      else (case cleanSearch text of
              Some m \<Rightarrow> trim (rev (dropWhile trailingSep (rev m)))
            | None \<Rightarrow> []))"

text \<open>
  \<^verbatim>\<open>label.replace(/^Phone:\s*/i, '')\<close>: the six code units of the prefix are compared
  without regard to case, and the white space after them goes too.
\<close>

definition lowerAscii :: "char \<Rightarrow> char" where
  "lowerAscii c =
     (case map_of (zip ''ABCDEFGHIJKLMNOPQRSTUVWXYZ'' ''abcdefghijklmnopqrstuvwxyz'') c of
        Some l \<Rightarrow> l
      | None \<Rightarrow> c)"

definition stripPhonePrefix :: "string \<Rightarrow> string" where
  "stripPhonePrefix label =
     (if map lowerAscii (take 6 label) = ''phone:''
      then dropWhile isSpace (drop 6 label) else label)"

subsection \<open>What the script reads from the page\<close>

text \<open>
  A \<open>document\<close> is one snapshot of the detail view, as far as the extractors query it:
  \<^item> \<open>h1s\<close>: the \<open>textContent\<close> of the elements selected by
    \<^verbatim>\<open>h1.fontHeadlineLarge, h1.DUwDvf, h1.kpih0e, h1.uvopNe, div[role="main"] h1\<close>,
    in document order;
  \<^item> \<open>mainRegion\<close>: \<open>None\<close> when there is no \<^verbatim>\<open>div[role="main"]\<close>, else its
    \<open>aria-label\<close> attribute (\<open>None\<close> for \<open>null\<close>);
  \<^item> \<open>actionButton\<close>, \<open>tablist\<close>, \<open>hotelHeader\<close>: whether \<^verbatim>\<open>button[data-item-id]\<close>,
    \<^verbatim>\<open>div[role="tablist"]\<close> and \<^verbatim>\<open>.DUwDvf\<close> select an element;
  \<^item> \<open>phoneBtn\<close>: the \<open>aria-label\<close> and \<open>textContent\<close> of the first
    \<^verbatim>\<open>button[data-item-id*="phone"]\<close>;
  \<^item> \<open>phoneLabelBtn\<close>: the \<open>aria-label\<close> of the first \<^verbatim>\<open>button[aria-label^="Phone"]\<close>;
  \<^item> \<open>buttons\<close>: \<open>textContent\<close> and \<open>aria-label\<close> of every \<open>button\<close>, in order;
  \<^item> \<open>websiteOf\<close>, \<open>addressOf\<close>, \<open>ratingOf\<close>, \<open>reviewsOf\<close>: the strings that
    \<open>extractWebsite\<close>, \<open>extractAddress\<close>, \<open>extractRating\<close> and \<open>extractReviews\<close>
    return on this snapshot. Those four extractors only read the page and always return
    a string; their selectors are not modelled.
\<close>

record document =
  h1s :: "string list"
  mainRegion :: "string option option"
  actionButton :: bool
  tablist :: bool
  hotelHeader :: bool
  phoneBtn :: "(string option \<times> string) option"
  phoneLabelBtn :: "string option"
  buttons :: "(string \<times> string option) list"
  websiteOf :: string
  addressOf :: string
  ratingOf :: string
  reviewsOf :: string

text \<open>
  The container of a feed card (\<^verbatim>\<open>card.closest('[data-result-index]') || card.parentElement\<close>):
  the \<open>textContent\<close> of its \<open>span\<close>s and the \<open>aria-label\<close> of its first element
  selected by \<^verbatim>\<open>[aria-label*="Phone"]\<close>.
\<close>

record container =
  spans :: "string list"
  ariaPhone :: "string option"

text \<open>
  The commands of the message listener other than \<open>startScraping\<close>. These are the
  commands the model lets arrive while the scraping task is suspended in a wait. A
  \<open>startScraping\<close> that arrives after a stop, while the stopped loop is still
  suspended, would run a second loop beside the first; such runs are outside the model.
\<close>

datatype command = StopScraping | ResetData | GetStatus | Export string | UnknownAction

text \<open>
  What the page shows when a card is clicked: the snapshot before the click, the snapshot
  at each poll of \<open>waitForDetailPanel\<close> (by elapsed milliseconds), the snapshot after the
  500 ms settle delay, the clock (\<open>new Date().toISOString()\<close>), and the commands the
  listener receives while \<open>scrapeCard\<close> is suspended, first in \<open>waitForDetailPanel\<close>
  and then in the settle delay.
\<close>

record page =
  before :: document
  pollAt :: "nat \<Rightarrow> document"
  settled :: document
  clock :: string
  duringWait :: "command list"
  duringSettle :: "command list"

text \<open>
  One element of \<open>getCards()\<close>: its \<open>href\<close>, its container (\<open>None\<close> when it has
  none), what a visit shows (\<open>Inl msg\<close>: the page interaction throws an error with that
  message before anything is stored), and the commands received during the
  \<open>CLICK_DELAY\<close> wait that follows the visit.
\<close>

record card =
  href :: string
  cardContainer :: "container option"
  visit :: "string + page"
  afterwards :: "command list"

subsection \<open>Records, messages and the scraper object\<close>

record place =
  name :: string
  phone :: string
  website :: string
  address :: string
  rating :: string
  reviews :: string
  url :: string
  scrapedAt :: string

text \<open>
  The progress texts are templates over numbers; the model keeps the template and its
  numbers apart: \<open>Processing n\<close> is \<^verbatim>\<open>Processing ${n} visible cards...\<close>, \<open>ScrapingCard k n\<close> is
  \<^verbatim>\<open>Scraping card ${k} of ${n}...\<close>.
\<close>

datatype progress = Processing nat | ScrapingCard nat nat | Scrolling | StoppedByUser

datatype message =
    UpdateCount nat
  | UpdateProgress progress
  | ScrapingComplete nat
  | ScrapingError string

text \<open>The lines written with \<open>this.log\<close>, again as templates.\<close>

datatype logline =
    LogAlreadyRunning
  | LogStarted
  | LogDetailNotLoaded string
  | LogDuplicateContent string
  | LogScraped string string string
  | LogCardError string
  | LogReachedEnd
  | LogNoNewCards nat nat
  | LogMaxScroll
  | LogFatal string
  | LogComplete nat
  | LogStopped
  | LogReset
  | LogExported string

text \<open>
  The files handed to \<open>downloadFile\<close>: the CSV text, the CSV text that follows the
  byte-order mark, and the records serialised by \<open>JSON.stringify\<close>.
\<close>

datatype download = CsvFile string | ExcelCsvFile string | JsonFile "place list"

text \<open>
  The scraper object. \<open>outbox\<close> is the sequence of \<open>chrome.runtime.sendMessage\<close>
  calls, \<open>console\<close> the sequence of log lines, \<open>downloads\<close> the files offered.
\<close>

record engine =
  scrapedData :: "place list"
  scrapedUrls :: "string set"
  isRunning :: bool
  outbox :: "message list"
  console :: "logline list"
  downloads :: "download list"

definition constructor :: engine where
  "constructor =
     \<lparr>scrapedData = [], scrapedUrls = {}, isRunning = False,
      outbox = [], console = [], downloads = []\<rparr>"

definition CLICK_DELAY :: nat where "CLICK_DELAY = 100"
definition SCROLL_WAIT :: nat where "SCROLL_WAIT = 1500"
definition DETAIL_TIMEOUT :: nat where "DETAIL_TIMEOUT = 3000"
definition MAX_SCROLL_FAILS :: nat where "MAX_SCROLL_FAILS = 3"

definition log :: "logline \<Rightarrow> engine \<Rightarrow> engine" where
  "log l e = e\<lparr>console := console e @ [l]\<rparr>"

definition send :: "message \<Rightarrow> engine \<Rightarrow> engine" where
  "send m e = e\<lparr>outbox := outbox e @ [m]\<rparr>"

definition sendCount :: "engine \<Rightarrow> engine" where
  "sendCount e = send (UpdateCount (length (scrapedData e))) e"

definition sendProgress :: "progress \<Rightarrow> engine \<Rightarrow> engine" where
  "sendProgress p e = send (UpdateProgress p) e"

definition sendComplete :: "engine \<Rightarrow> engine" where
  "sendComplete e = send (ScrapingComplete (length (scrapedData e))) e"

definition sendError :: "string \<Rightarrow> engine \<Rightarrow> engine" where
  "sendError msg e = send (ScrapingError msg) e"

subsection \<open>The detail-ready wait\<close>

text \<open>
  \<open>detailH1\<close> is the \<open>find\<close> of \<open>waitForDetailPanel\<close>: the first heading whose trimmed
  text is not empty, is neither placeholder and differs from the previous name.
\<close>

definition detailH1 :: "string \<Rightarrow> document \<Rightarrow> string option" where
  "detailH1 previousName d =
     find (\<lambda>h1. let text = trim h1 in
             text \<noteq> [] \<and> text \<noteq> ''Results'' \<and> text \<noteq> ''Google Maps'' \<and>
             text \<noteq> previousName)
          (h1s d)"

definition panelReady :: "string \<Rightarrow> document \<Rightarrow> bool" where
  "panelReady previousName d =
     (detailH1 previousName d \<noteq> None \<and> (actionButton d \<or> tablist d \<or> hotelHeader d))"

text \<open>
  One run of the interval timer. Each tick adds 100 to \<open>elapsed\<close> and reads the page.
  The promise takes the value of its first \<open>resolve\<close>: \<open>true\<close> when the panel is
  ready, else \<open>!!detailH1\<close> once \<open>elapsed\<close> has reached \<open>DETAIL_TIMEOUT\<close>; both
  branches clear the timer. The result is the resolved value and the tick's \<open>elapsed\<close>.
\<close>

function pollDetail :: "string \<Rightarrow> (nat \<Rightarrow> document) \<Rightarrow> nat \<Rightarrow> bool \<times> nat" where
  "pollDetail previousName docAt elapsed =
     (if panelReady previousName (docAt (elapsed + 100)) then (True, elapsed + 100)
      else if DETAIL_TIMEOUT \<le> elapsed + 100
      then (detailH1 previousName (docAt (elapsed + 100)) \<noteq> None, elapsed + 100)
      else pollDetail previousName docAt (elapsed + 100))"
  by pat_completeness auto
termination
  by (relation "measure (\<lambda>(previousName, docAt, elapsed). DETAIL_TIMEOUT - elapsed)") auto

definition waitForDetailPanel :: "string \<Rightarrow> (nat \<Rightarrow> document) \<Rightarrow> bool \<times> nat" where
  "waitForDetailPanel previousName docAt = pollDetail previousName docAt 0"

text \<open>
  The readings of the timeout rule: a title that is valid in the sense of the
  specification (not empty, not a placeholder), whatever the previous name was.
\<close>

definition validTitle :: "document \<Rightarrow> bool" where
  "validTitle d =
     (find (\<lambda>h1. let text = trim h1 in
              text \<noteq> [] \<and> text \<noteq> ''Results'' \<and> text \<noteq> ''Google Maps'')
           (h1s d) \<noteq> None)"

subsection \<open>The field extractors\<close>

definition extractName :: "document \<Rightarrow> string" where
  "extractName d =
     (case find (\<lambda>h1. let text = trim h1 in
                   text \<noteq> [] \<and> text \<noteq> ''Results'' \<and> text \<noteq> ''Google Maps'' \<and>
                   \<not> str_includes ''found'' text)
                (h1s d) of
        Some h1 \<Rightarrow> trim h1
      | None \<Rightarrow>
          (case mainRegion d of
             Some (Some label) \<Rightarrow>
               if label \<noteq> [] \<and> label \<noteq> ''Results'' \<and> label \<noteq> ''Google Maps''
               then label else []
           | _ \<Rightarrow> []))"

text \<open>Method 3 of \<open>extractPhone\<close>: the first button whose text and label hold a match.\<close>

fun scanButtons :: "(string \<times> string option) list \<Rightarrow> string" where
  "scanButtons [] = []"
| "scanButtons ((textContent, label) # rest) =
     (case phoneSearch (textContent @ '' '' @ (case label of None \<Rightarrow> [] | Some l \<Rightarrow> l)) of
        Some m \<Rightarrow> trim m
      | None \<Rightarrow> scanButtons rest)"

definition extractPhone :: "document \<Rightarrow> string" where
  "extractPhone d =
     (let phone1 =
            (case phoneBtn d of
               None \<Rightarrow> []
             | Some (label, textContent) \<Rightarrow>
                 js_or (trim (stripPhonePrefix (case label of None \<Rightarrow> [] | Some l \<Rightarrow> l)))
                       (trim textContent));
          phone2 =
            (if phone1 = []
             then (case phoneLabelBtn d of
                     None \<Rightarrow> phone1
                   | Some label \<Rightarrow> trim (stripPhonePrefix label))
             else phone1);
          phone3 = (if phone2 = [] then scanButtons (buttons d) else phone2)
      in cleanPhone phone3)"

text \<open>The span scan of \<open>extractPhoneFromCard\<close>: \<open>test\<close> the trimmed text, clean all of it.\<close>

fun scanSpans :: "string list \<Rightarrow> string option" where
  "scanSpans [] = None"
| "scanSpans (span # rest) =
     (if phoneSearch (trim span) \<noteq> None then Some (cleanPhone (trim span))
      else scanSpans rest)"

definition extractPhoneFromCard :: "card \<Rightarrow> string" where
  "extractPhoneFromCard c =
     (case cardContainer c of
        None \<Rightarrow> []
      | Some box \<Rightarrow>
          (case scanSpans (spans box) of
             Some p \<Rightarrow> p
           | None \<Rightarrow>
               (case ariaPhone box of
                  Some label \<Rightarrow> cleanPhone (stripPhonePrefix label)
                | None \<Rightarrow> [])))"

text \<open>\<open>extractAllData\<close>; \<open>url\<close> and \<open>scrapedAt\<close> are attached at the commit.\<close>

definition extractAllData :: "document \<Rightarrow> place" where
  "extractAllData d =
     \<lparr>name = extractName d, phone = extractPhone d, website = websiteOf d,
      address = addressOf d, rating = ratingOf d, reviews = reviewsOf d,
      url = [], scrapedAt = []\<rparr>"

subsection \<open>Export\<close>

definition csvHeaders :: "string list" where
  "csvHeaders = [''Name'', ''Phone'', ''Website'', ''Address'', ''Rating'', ''Reviews'', ''URL'']"

definition csvRow :: "place \<Rightarrow> string list" where
  "csvRow d =
     [js_or (name d) [], js_or (phone d) [], js_or (website d) [], js_or (address d) [],
      js_or (rating d) [], js_or (reviews d) [], js_or (url d) []]"

text \<open>\<^verbatim>\<open>`"${String(cell).replace(/"/g, '""')}"`\<close>; \<open>CHR 0x22\<close> is the double quote.\<close>

definition doubleQuotes :: "string \<Rightarrow> string" where
  "doubleQuotes cell = concat (map (\<lambda>c. if c = CHR 0x22 then [CHR 0x22, CHR 0x22] else [c]) cell)"

definition csvCell :: "string \<Rightarrow> string" where
  "csvCell cell = [CHR 0x22] @ doubleQuotes cell @ [CHR 0x22]"

definition csvLines :: "string list list \<Rightarrow> string" where
  "csvLines table = str_join [CHR 0x0A] (map (\<lambda>row. str_join '','' (map csvCell row)) table)"

definition generateCSVContent :: "engine \<Rightarrow> string" where
  "generateCSVContent e = csvLines (csvHeaders # map csvRow (scrapedData e))"

definition downloadFile :: "download \<Rightarrow> engine \<Rightarrow> engine" where
  "downloadFile f e = e\<lparr>downloads := downloads e @ [f]\<rparr>"

definition exportCSV :: "engine \<Rightarrow> engine" where
  "exportCSV e = log (LogExported ''CSV'') (downloadFile (CsvFile (generateCSVContent e)) e)"

definition exportExcelCSV :: "engine \<Rightarrow> engine" where
  "exportExcelCSV e =
     log (LogExported ''Excel CSV'') (downloadFile (ExcelCsvFile (generateCSVContent e)) e)"

definition exportJSON :: "engine \<Rightarrow> engine" where
  "exportJSON e = log (LogExported ''JSON'') (downloadFile (JsonFile (scrapedData e)) e)"




subsection \<open>The commands other than start\<close>

datatype response =
    StatusStarted
  | StatusAlreadyRunning
  | StatusStopped nat
  | StatusReset nat
  | StatusInfo bool nat
  | StatusNoData
  | StatusExported
  | StatusUnknownAction

definition stop :: "engine \<Rightarrow> engine" where
  "stop e = sendProgress StoppedByUser (log LogStopped (e\<lparr>isRunning := False\<rparr>))"

definition reset :: "engine \<Rightarrow> engine" where
  "reset e = log LogReset (e\<lparr>scrapedData := [], scrapedUrls := {}\<rparr>)"

text \<open>The cases of the listener's \<open>switch\<close>, \<open>startScraping\<close> apart.\<close>

fun handle :: "command \<Rightarrow> engine \<Rightarrow> response \<times> engine" where
  "handle StopScraping e = (let e1 = stop e in (StatusStopped (length (scrapedData e1)), e1))"
| "handle ResetData e = (StatusReset 0, reset e)"
| "handle GetStatus e = (StatusInfo (isRunning e) (length (scrapedData e)), e)"
| "handle (Export format) e =
     (if length (scrapedData e) = 0 then (StatusNoData, e)
      else (StatusExported,
            if format = ''csv'' then exportCSV e
            else if format = ''excel'' then exportExcelCSV e
            else if format = ''json'' then exportJSON e
            else e))"
| "handle UnknownAction e = (StatusUnknownAction, e)"

text \<open>The commands that arrive while the scraping task is suspended, in their order.\<close>

fun deliver :: "command list \<Rightarrow> engine \<Rightarrow> engine" where
  "deliver [] e = e"
| "deliver (c # cs) e = deliver cs (snd (handle c e))"

subsection \<open>Scraping one card\<close>

text \<open>
  \<open>scrapeCard\<close> returns \<open>Inr true\<close> after a commit, \<open>Inr false\<close> for each of its
  skips, and \<open>Inl msg\<close> when the page interaction throws. The log line of a commit
  carries the name, the phone and the website of the record. \<open>resumed\<close> is the scraper
  object when \<open>scrapeCard\<close> goes on after its two waits: the commands received in
  the meantime have been handled, and the failed wait has been logged between them.
\<close>

definition resumed :: "string \<Rightarrow> bool \<Rightarrow> page \<Rightarrow> engine \<Rightarrow> engine" where
  "resumed uniqueUrl loaded pg e =
     (let e1 = deliver (duringWait pg) e;
          e2 = (if \<not> loaded then log (LogDetailNotLoaded uniqueUrl) e1 else e1)
      in deliver (duringSettle pg) e2)"

definition scrapeCard :: "card \<Rightarrow> engine \<Rightarrow> (string + bool) \<times> engine" where
  "scrapeCard c e =
     (let rawUrl = href c;
          uniqueUrl = getUniqueUrl rawUrl
      in if uniqueUrl \<in> scrapedUrls e then (Inr False, e)
         else (case visit c of
                 Inl msg \<Rightarrow> (Inl msg, e)
               | Inr pg \<Rightarrow>
                   let previousName = extractName (before pg);
                       outerPhone = extractPhoneFromCard c;
                       loaded = fst (waitForDetailPanel previousName (pollAt pg));
                       e3 = resumed uniqueUrl loaded pg e;
                       currentName = extractName (settled pg)
                   in if currentName = previousName \<and> previousName \<noteq> []
                      then (Inr False, log (LogDuplicateContent previousName) e3)
                      else let extracted = extractAllData (settled pg);
                               data = (if phone extracted = [] \<and> outerPhone \<noteq> []
                                       then extracted\<lparr>phone := outerPhone\<rparr> else extracted)
                           in if name data \<noteq> []
                              then let stored = data\<lparr>url := rawUrl, scrapedAt := clock pg\<rparr>;
                                       e4 = e3\<lparr>scrapedData := scrapedData e3 @ [stored],
                                               scrapedUrls := insert uniqueUrl (scrapedUrls e3)\<rparr>;
                                       e5 = log (LogScraped (name stored) (phone stored)
                                                   (website stored)) e4
                                   in (Inr True, sendCount e5)
                              else (Inr False, e3)))"

text \<open>
  The two synchronous parts of \<open>scrapeCard\<close>. Between them the call is suspended in
  its waits, and whatever else runs in the meantime (the listener, another loop) works
  on the same scraper object. \<open>scrapeCardEnter\<close> is the call up to its first
  \<open>await\<close>: \<open>Inl\<close> when it returns or throws without waiting, \<open>Inr pg\<close> when it has
  passed the key test, clicked the card and is suspended, \<open>pg\<close> being what its visit
  shows. \<open>scrapeCardFinish\<close> is the call from the end of its waits on, applied to the
  scraper object as it is at that moment; the key is not tested again.
\<close>

definition scrapeCardEnter :: "card \<Rightarrow> engine \<Rightarrow> ((string + bool) \<times> engine) + page" where
  "scrapeCardEnter c e =
     (let rawUrl = href c;
          uniqueUrl = getUniqueUrl rawUrl
      in if uniqueUrl \<in> scrapedUrls e then Inl (Inr False, e)
         else (case visit c of
                 Inl msg \<Rightarrow> Inl (Inl msg, e)
               | Inr pg \<Rightarrow> Inr pg))"

definition scrapeCardFinish :: "card \<Rightarrow> page \<Rightarrow> engine \<Rightarrow> (string + bool) \<times> engine" where
  "scrapeCardFinish c pg e3 =
     (let rawUrl = href c;
          uniqueUrl = getUniqueUrl rawUrl;
          previousName = extractName (before pg);
          outerPhone = extractPhoneFromCard c;
          currentName = extractName (settled pg)
      in if currentName = previousName \<and> previousName \<noteq> []
         then (Inr False, log (LogDuplicateContent previousName) e3)
         else let extracted = extractAllData (settled pg);
                  data = (if phone extracted = [] \<and> outerPhone \<noteq> []
                          then extracted\<lparr>phone := outerPhone\<rparr> else extracted)
              in if name data \<noteq> []
                 then let stored = data\<lparr>url := rawUrl, scrapedAt := clock pg\<rparr>;
                          e4 = e3\<lparr>scrapedData := scrapedData e3 @ [stored],
                                  scrapedUrls := insert uniqueUrl (scrapedUrls e3)\<rparr>;
                          e5 = log (LogScraped (name stored) (phone stored)
                                      (website stored)) e4
                      in (Inr True, sendCount e5)
                 else (Inr False, e3))"

subsection \<open>The traversal loop\<close>

text \<open>
  The reads of one pass of the \<open>while\<close> loop: the cards of \<open>getCards()\<close> at its top,
  the value of \<open>hasReachedEnd()\<close>, and the scroll (the two card counts around it and the
  commands received during \<open>SCROLL_WAIT\<close>). \<open>Inl msg\<close> is a read that throws; it is
  caught by the \<open>catch\<close> around the loop.
\<close>

record scrolling =
  beforeCount :: nat
  duringScroll :: "command list"
  afterCount :: nat

record reads =
  cards :: "card list"
  endOfList :: "string + bool"
  scroll :: "string + scrolling"

text \<open>The scraper object with the two local variables of \<open>start\<close>.\<close>

record loop =
  eng :: engine
  lastProcessedIndex :: nat
  consecutiveScrollFails :: nat

text \<open>How the \<open>while\<close> loop is left.\<close>

datatype exit = EndOfResults | MaxScrollFails | NotRunning | FatalError string

text \<open>
  The body of the \<open>for\<close> loop at index \<open>i\<close>, after its \<open>isRunning\<close> test; \<open>n\<close> is
  \<open>cards.length\<close>, the second component \<open>newDataThisRound\<close>. A \<open>continue\<close> ends it.
\<close>

definition forBody :: "nat \<Rightarrow> nat \<Rightarrow> card \<Rightarrow> loop \<times> nat \<Rightarrow> loop \<times> nat" where
  "forBody i n c st =
     (let ls1 = (fst st)\<lparr>lastProcessedIndex := i + 1\<rparr>;
          newDataThisRound = snd st
      in if getUniqueUrl (href c) \<in> scrapedUrls (eng ls1) then (ls1, newDataThisRound)
         else let e1 = sendProgress (ScrapingCard (i + 1) n) (eng ls1);
                  attempt = scrapeCard c e1;
                  e2 = (case fst attempt of
                          Inl msg \<Rightarrow> log (LogCardError msg) (snd attempt)
                        | Inr scraped \<Rightarrow> snd attempt);
                  newData = (case fst attempt of
                               Inl msg \<Rightarrow> newDataThisRound
                             | Inr scraped \<Rightarrow>
                                 if scraped then newDataThisRound + 1 else newDataThisRound);
                  e3 = deliver (afterwards c) e2
              in (ls1\<lparr>eng := e3\<rparr>, newData))"

text \<open>The \<open>for\<close> loop from index \<open>i\<close> over the cards from \<open>i\<close> on.\<close>

fun forCards :: "nat \<Rightarrow> nat \<Rightarrow> card list \<Rightarrow> loop \<times> nat \<Rightarrow> loop \<times> nat" where
  "forCards i n [] st = st"
| "forCards i n (c # todo) st =
     (if \<not> isRunning (eng (fst st)) then st
      else forCards (i + 1) n todo (forBody i n c st))"

text \<open>The top of a pass: the snapshot, the reset of the index, the \<open>for\<close> loop.\<close>

definition scanCards :: "reads \<Rightarrow> loop \<Rightarrow> loop \<times> nat" where
  "scanCards r ls =
     (let n = length (cards r);
          ls1 = (if n < lastProcessedIndex ls then ls\<lparr>lastProcessedIndex := 0\<rparr> else ls);
          ls2 = ls1\<lparr>eng := sendProgress (Processing n) (eng ls1)\<rparr>
      in forCards (lastProcessedIndex ls2) n (drop (lastProcessedIndex ls2) (cards r)) (ls2, 0))"

text \<open>The rest of the pass; \<open>None\<close> goes back to the \<open>while\<close> test.\<close>

definition afterCards :: "reads \<Rightarrow> loop \<times> nat \<Rightarrow> exit option \<times> loop" where
  "afterCards r st =
     (let ls = fst st; newDataThisRound = snd st
      in case endOfList r of
           Inl msg \<Rightarrow> (Some (FatalError msg), ls)
         | Inr ended \<Rightarrow>
             if ended then (Some EndOfResults, ls\<lparr>eng := log LogReachedEnd (eng ls)\<rparr>)
             else let ls1 = ls\<lparr>eng := sendProgress Scrolling (eng ls)\<rparr>
                  in case scroll r of
                       Inl msg \<Rightarrow> (Some (FatalError msg), ls1)
                     | Inr sc \<Rightarrow>
                         let ls2 = ls1\<lparr>eng := deliver (duringScroll sc) (eng ls1)\<rparr>
                         in if afterCount sc \<le> beforeCount sc \<and> newDataThisRound = 0
                            then let fails = consecutiveScrollFails ls2 + 1;
                                     ls3 = ls2\<lparr>consecutiveScrollFails := fails,
                                               eng := log (LogNoNewCards fails MAX_SCROLL_FAILS)
                                                        (eng ls2)\<rparr>
                                 in if MAX_SCROLL_FAILS \<le> fails
                                    then (Some MaxScrollFails,
                                          ls3\<lparr>eng := log LogMaxScroll (eng ls3)\<rparr>)
                                    else (None, ls3)
                            else (None, ls2\<lparr>consecutiveScrollFails := 0\<rparr>))"

definition cycle :: "reads \<Rightarrow> loop \<Rightarrow> exit option \<times> loop" where
  "cycle r ls = afterCards r (scanCards r ls)"

text \<open>
  The \<open>while\<close> loop over the reads of its passes. \<open>None\<close>: the reads are used up and
  the loop is still running.
\<close>

fun whileRunning :: "reads list \<Rightarrow> loop \<Rightarrow> exit option \<times> loop" where
  "whileRunning [] ls = (if isRunning (eng ls) then (None, ls) else (Some NotRunning, ls))"
| "whileRunning (r # rs) ls =
     (if \<not> isRunning (eng ls) then (Some NotRunning, ls)
      else (case cycle r ls of
              (Some x, ls') \<Rightarrow> (Some x, ls')
            | (None, ls') \<Rightarrow> whileRunning rs ls'))"

text \<open>
  \<open>start\<close>: \<open>feed\<close> is whether \<open>getFeedContainer()\<close> finds the feed, \<open>passes\<close> the reads
  of the loop. When the reads are used up while the loop is running, the result is the
  object as it is then, still running.
\<close>

record world =
  feed :: bool
  passes :: "reads list"

definition start :: "world \<Rightarrow> engine \<Rightarrow> engine" where
  "start w e =
     (if isRunning e then log LogAlreadyRunning e
      else if \<not> feed w
      then sendError ''No search results found. Please search on Google Maps first.'' e
      else let e1 = log LogStarted (e\<lparr>isRunning := True\<rparr>);
               left = whileRunning (passes w)
                        \<lparr>eng = e1, lastProcessedIndex = 0, consecutiveScrollFails = 0\<rparr>
           in case fst left of
                None \<Rightarrow> eng (snd left)
              | Some x \<Rightarrow>
                  let e2 = (case x of
                              FatalError msg \<Rightarrow>
                                sendError (''Error: '' @ msg) (log (LogFatal msg) (eng (snd left)))
                            | _ \<Rightarrow> eng (snd left));
                      e3 = e2\<lparr>isRunning := False\<rparr>;
                      e4 = log (LogComplete (length (scrapedData e3))) e3
                  in sendComplete e4)"

subsection \<open>The message listener\<close>

datatype request = StartScraping | Command command

text \<open>
  The response and the scraper object after the request. For \<open>startScraping\<close> the
  response is sent as soon as \<open>start\<close> is suspended or has returned; the object given
  here is the one \<open>start\<close> leaves.
\<close>

definition listener :: "world \<Rightarrow> request \<Rightarrow> engine \<Rightarrow> response \<times> engine" where
  "listener w req e =
     (case req of
        StartScraping \<Rightarrow>
          if isRunning e then (StatusAlreadyRunning, e) else (StatusStarted, start w e)
      | Command c \<Rightarrow> handle c e)"

text \<open>
  A session: the requests of the popup in their order, each with the page it meets. A
  request is taken when the \<open>start\<close> before it has returned or has used up its
  reads: the loops of a session never overlap. Two loops that overlap are followed
  through the two parts of \<open>scrapeCard\<close> instead.
\<close>

fun session :: "(world \<times> request) list \<Rightarrow> engine \<Rightarrow> engine" where
  "session [] e = e"
| "session ((w, req) # more_requests) e = session more_requests (snd (listener w req e))"

subsection \<open>Notions used by the properties\<close>

text \<open>The canonical key of a record.\<close>

definition canonicalKey :: "place \<Rightarrow> string" where
  "canonicalKey r = getUniqueUrl (url r)"

text \<open>
  \<open>dedupOK\<close>: the canonical keys of the records are pairwise different and are exactly
  the members of the set of scraped urls. \<open>namesOK\<close>: every record has a name.
  \<open>keptOrCleared e e'\<close>: the store of \<open>e'\<close> is the store of \<open>e\<close> or is empty.
\<close>

definition dedupOK :: "engine \<Rightarrow> bool" where
  "dedupOK e =
     (distinct (map canonicalKey (scrapedData e)) \<and>
      set (map canonicalKey (scrapedData e)) = scrapedUrls e)"

definition namesOK :: "engine \<Rightarrow> bool" where
  "namesOK e = (\<forall>r \<in> set (scrapedData e). name r \<noteq> [])"

definition storeOK :: "engine \<Rightarrow> bool" where
  "storeOK e = (dedupOK e \<and> namesOK e)"

definition keptOrCleared :: "engine \<Rightarrow> engine \<Rightarrow> bool" where
  "keptOrCleared e e' =
     ((scrapedData e' = scrapedData e \<and> scrapedUrls e' = scrapedUrls e) \<or>
      (scrapedData e' = [] \<and> scrapedUrls e' = {}))"

text \<open>
  Two readings of \<open>scrapeCard\<close> for the name gate. \<open>afterWaits c e\<close> is the scraper
  object as the call finds it when its waits are over (the object itself when the call
  returns or throws before it waits). \<open>nameAtGate c e\<close> is the name that reaches the
  test \<open>if (data.name)\<close>, \<open>None\<close> when the call ends before that test.
\<close>

definition afterWaits :: "card \<Rightarrow> engine \<Rightarrow> engine" where
  "afterWaits c e =
     (if getUniqueUrl (href c) \<in> scrapedUrls e then e
      else (case visit c of
              Inl msg \<Rightarrow> e
            | Inr pg \<Rightarrow>
                resumed (getUniqueUrl (href c))
                  (fst (waitForDetailPanel (extractName (before pg)) (pollAt pg))) pg e))"

definition nameAtGate :: "card \<Rightarrow> engine \<Rightarrow> string option" where
  "nameAtGate c e =
     (if getUniqueUrl (href c) \<in> scrapedUrls e then None
      else (case visit c of
              Inl msg \<Rightarrow> None
            | Inr pg \<Rightarrow>
                if extractName (settled pg) = extractName (before pg) \<and>
                   extractName (before pg) \<noteq> []
                then None else Some (extractName (settled pg))))"

text \<open>
  The card numbers of the \<open>Scraping card k of n\<close> messages, in the order sent: one is
  sent right before each call of \<open>scrapeCard\<close> in the loop, with \<open>k = i + 1\<close>. And the
  number of count messages: one is sent by each commit.
\<close>

fun attempted :: "message list \<Rightarrow> nat list" where
  "attempted [] = []"
| "attempted (m # ms) =
     (case m of
        UpdateProgress (ScrapingCard k n) \<Rightarrow> k # attempted ms
      | _ \<Rightarrow> attempted ms)"

fun commits :: "message list \<Rightarrow> nat" where
  "commits [] = 0"
| "commits (m # ms) = (case m of UpdateCount k \<Rightarrow> commits ms + 1 | _ \<Rightarrow> commits ms)"

text \<open>
  A pass without progress: it gets to the scroll, the card count does not grow, and
  \<open>newDataThisRound\<close> is 0 after its \<open>for\<close> loop.
\<close>

definition noProgress :: "reads \<Rightarrow> loop \<Rightarrow> bool" where
  "noProgress r ls =
     (endOfList r = Inr False \<and>
      (case scroll r of Inl msg \<Rightarrow> False | Inr sc \<Rightarrow> afterCount sc \<le> beforeCount sc) \<and>
      snd (scanCards r ls) = 0)"

text \<open>
  The next \<open>k\<close> passes of the loop are passes without progress, each one begun with
  the loop running, as long as the loop goes on.
\<close>

fun stalledFor :: "nat \<Rightarrow> reads list \<Rightarrow> loop \<Rightarrow> bool" where
  "stalledFor 0 rs ls = True"
| "stalledFor (Suc k) [] ls = False"
| "stalledFor (Suc k) (r # rs) ls =
     (isRunning (eng ls) \<and> noProgress r ls \<and>
      (fst (cycle r ls) = None \<longrightarrow> stalledFor k rs (snd (cycle r ls))))"

text \<open>No pass of the run finds fewer cards than the index has reached.\<close>

fun noShrink :: "reads list \<Rightarrow> loop \<Rightarrow> bool" where
  "noShrink [] ls = True"
| "noShrink (r # rs) ls =
     (isRunning (eng ls) \<longrightarrow>
        lastProcessedIndex ls \<le> length (cards r) \<and>
        (fst (cycle r ls) = None \<longrightarrow> noShrink rs (snd (cycle r ls))))"

subsection \<open>Example pages\<close>

text \<open>
  A detail view whose only button with digits is a delivery time; a detail view that
  shows the place named Cafe, fully rendered; a page that shows Cafe all the time; and
  a page where Cafe replaces the placeholder heading at the second poll.
\<close>

definition delivery_doc :: document where
  "delivery_doc =
     \<lparr>h1s = [''Pizza Roma''], mainRegion = None, actionButton = True, tablist = False,
      hotelHeader = False, phoneBtn = None, phoneLabelBtn = None,
      buttons = [(''10 - 20 min'', None)],
      websiteOf = [], addressOf = [], ratingOf = [], reviewsOf = []\<rparr>"

definition cafe_doc :: document where
  "cafe_doc =
     \<lparr>h1s = [''Cafe''], mainRegion = None, actionButton = False, tablist = True,
      hotelHeader = False, phoneBtn = None, phoneLabelBtn = None, buttons = [],
      websiteOf = [], addressOf = [], ratingOf = [], reviewsOf = []\<rparr>"

definition cafe_page :: "nat \<Rightarrow> document" where
  "cafe_page elapsed = cafe_doc"

definition late_page :: "nat \<Rightarrow> document" where
  "late_page elapsed = (if elapsed < 200 then cafe_doc\<lparr>h1s := [''Results '']\<rparr> else cafe_doc)"

text \<open>
  A detail view with nothing in it; the visit of a card that opens the place with the
  delivery-time button; the same place under two links that differ in the query; a card
  whose detail view never shows a name; and three pages for \<open>start\<close>: one where both
  links are visible and the end of the list is reached, one whose reads stop after a pass
  while the loop is running, and one without a feed.
\<close>

definition blank_doc :: document where
  "blank_doc =
     \<lparr>h1s = [], mainRegion = None, actionButton = False, tablist = False,
      hotelHeader = False, phoneBtn = None, phoneLabelBtn = None, buttons = [],
      websiteOf = [], addressOf = [], ratingOf = [], reviewsOf = []\<rparr>"

definition roma_page :: page where
  "roma_page =
     \<lparr>before = blank_doc, pollAt = (\<lambda>elapsed. delivery_doc), settled = delivery_doc,
      clock = ''2024-05-01T10:00:00.000Z'', duringWait = [], duringSettle = []\<rparr>"

definition card_en :: card where
  "card_en =
     \<lparr>href = ''https://www.google.com/maps/place/A?hl=en'', cardContainer = None,
      visit = Inr roma_page, afterwards = []\<rparr>"

definition card_fr :: card where
  "card_fr =
     \<lparr>href = ''https://www.google.com/maps/place/A?hl=fr'', cardContainer = None,
      visit = Inr roma_page, afterwards = []\<rparr>"

definition blank_page :: page where
  "blank_page =
     \<lparr>before = blank_doc, pollAt = (\<lambda>elapsed. blank_doc), settled = blank_doc,
      clock = ''2024-05-01T10:00:05.000Z'', duringWait = [], duringSettle = []\<rparr>"

definition card_blank :: card where
  "card_blank =
     \<lparr>href = ''https://www.google.com/maps/place/B'', cardContainer = None,
      visit = Inr blank_page, afterwards = []\<rparr>"

definition two_links_world :: world where
  "two_links_world =
     \<lparr>feed = True,
      passes = [\<lparr>cards = [card_en, card_fr], endOfList = Inr True,
                 scroll = Inr \<lparr>beforeCount = 2, duringScroll = [], afterCount = 2\<rparr>\<rparr>]\<rparr>"

definition running_world :: world where
  "running_world =
     \<lparr>feed = True,
      passes = [\<lparr>cards = [card_en], endOfList = Inr False,
                 scroll = Inr \<lparr>beforeCount = 1, duringScroll = [], afterCount = 1\<rparr>\<rparr>]\<rparr>"

definition no_feed_world :: world where
  "no_feed_world = \<lparr>feed = False, passes = []\<rparr>"

text \<open>
  A running scraper at the top of the loop; a pass that finds one card without a name
  and no more cards after the scroll; a pass over a feed without cards; a pass where
  the scroll brings more cards; a card
  whose visit throws; a run of two passes over that card and a good one; and a loop
  whose index is beyond the one card that is left.
\<close>

definition running_loop :: loop where
  "running_loop =
     \<lparr>eng = constructor\<lparr>isRunning := True\<rparr>, lastProcessedIndex = 0,
      consecutiveScrollFails = 0\<rparr>"

definition stalled_pass :: reads where
  "stalled_pass =
     \<lparr>cards = [card_blank], endOfList = Inr False,
      scroll = Inr \<lparr>beforeCount = 1, duringScroll = [], afterCount = 1\<rparr>\<rparr>"

definition empty_pass :: reads where
  "empty_pass =
     \<lparr>cards = [], endOfList = Inr False,
      scroll = Inr \<lparr>beforeCount = 0, duringScroll = [], afterCount = 0\<rparr>\<rparr>"

definition growing_pass :: reads where
  "growing_pass =
     \<lparr>cards = [card_blank], endOfList = Inr False,
      scroll = Inr \<lparr>beforeCount = 1, duringScroll = [], afterCount = 3\<rparr>\<rparr>"

definition card_broken :: card where
  "card_broken =
     \<lparr>href = ''https://www.google.com/maps/place/C'', cardContainer = None,
      visit = Inl ''Cannot read properties of null'', afterwards = []\<rparr>"

definition broken_passes :: "reads list" where
  "broken_passes =
     [\<lparr>cards = [card_broken, card_en], endOfList = Inr False,
       scroll = Inr \<lparr>beforeCount = 2, duringScroll = [], afterCount = 2\<rparr>\<rparr>,
      \<lparr>cards = [card_broken, card_en], endOfList = Inr True,
       scroll = Inr \<lparr>beforeCount = 2, duringScroll = [], afterCount = 2\<rparr>\<rparr>]"

definition far_loop :: loop where
  "far_loop = running_loop\<lparr>lastProcessedIndex := 2\<rparr>"

text \<open>
  Two loops on one card. \<open>first_loop\<close> is the scraper object when the loop of a first
  \<open>start\<close> calls \<open>scrapeCard\<close> on the only card of the feed: running, the start
  logged, the two progress messages sent. \<open>stopped_loop\<close> is the object after a stop
  command, received while that call is suspended. \<open>second_loop\<close> is the object when
  the loop of a second \<open>start\<close>, accepted because the object is not running, calls
  \<open>scrapeCard\<close> on the same card.
\<close>

definition first_loop :: engine where
  "first_loop =
     sendProgress (ScrapingCard 1 1)
       (sendProgress (Processing 1) (log LogStarted (constructor\<lparr>isRunning := True\<rparr>)))"

definition stopped_loop :: engine where
  "stopped_loop = snd (handle StopScraping first_loop)"

definition second_loop :: engine where
  "second_loop =
     sendProgress (ScrapingCard 1 1)
       (sendProgress (Processing 1) (log LogStarted (stopped_loop\<lparr>isRunning := True\<rparr>)))"

section \<open>Properties\<close>

subsection \<open>Export\<close>









subsection \<open>The phone patterns\<close>

lemma phoneBody_shape:
  assumes "phoneBody s = Some m"
  shows "\<exists>d tail post. m = d # tail \<and> isDigit d \<and> 6 \<le> length tail \<and>
           list_all phoneChar tail \<and> s = m @ post"
proof (cases s)
  case Nil
  with assms show ?thesis by (simp add: phoneBody_def)
next
  case (Cons d rest)
  from assms have "(if isDigit d \<and> 6 \<le> length (takeWhile phoneChar rest)
          then Some (d # takeWhile phoneChar rest) else None) = Some m"
    unfolding Cons phoneBody_def by simp
  then have m: "m = d # takeWhile phoneChar rest" and d: "isDigit d"
    and len: "6 \<le> length (takeWhile phoneChar rest)"
    by (simp_all split: if_splits)
  have "list_all phoneChar (takeWhile phoneChar rest)"
    by (simp add: list_all_iff) (metis set_takeWhileD)
  moreover have "s = m @ dropWhile phoneChar rest" using Cons m by simp
  ultimately show ?thesis using m d len by blast
qed

lemma phoneAt_cases:
  assumes "phoneAt (c # rest) = Some m"
  shows "((c = CHR ''+'' \<or> c = CHR ''('') \<and> (\<exists>m'. phoneBody rest = Some m' \<and> m = c # m')) \<or>
         phoneBody (c # rest) = Some m"
proof (cases "phoneBody rest")
  case None
  with assms show ?thesis by (simp add: phoneAt_def split: if_splits)
next
  case (Some m')
  with assms show ?thesis by (simp add: phoneAt_def split: if_splits)
qed

lemma phoneAt_shape:
  assumes "phoneAt s = Some m"
  shows "\<exists>sign d tail post. m = sign @ d # tail \<and> (sign = [] \<or> sign = ''+'' \<or> sign = ''('') \<and>
           isDigit d \<and> 6 \<le> length tail \<and> list_all phoneChar tail \<and> s = m @ post"
proof (cases s)
  case Nil
  with assms show ?thesis by (simp add: phoneAt_def)
next
  case (Cons c rest)
  from assms Cons have "phoneAt (c # rest) = Some m" by simp
  from phoneAt_cases [OF this]
  consider (signed) m' where "c = CHR ''+'' \<or> c = CHR ''(''" "phoneBody rest = Some m'" "m = c # m'"
    | (plain) "phoneBody s = Some m"
    using Cons by blast
  then show ?thesis
  proof cases
    case signed
    from phoneBody_shape [OF signed(2)] obtain d tail post where
      parts: "m' = d # tail" "isDigit d" "6 \<le> length tail" "list_all phoneChar tail"
        "rest = m' @ post"
      by blast
    from signed(1) have sign: "[c] = ''+'' \<or> [c] = ''(''" by simp
    from parts signed Cons have "m = [c] @ d # tail" "s = m @ post" by simp_all
    with sign parts show ?thesis by blast
  next
    case plain
    from phoneBody_shape [OF plain] obtain d tail post where
      parts: "m = d # tail" "isDigit d" "6 \<le> length tail" "list_all phoneChar tail"
        "s = m @ post"
      by blast
    then have "m = [] @ d # tail" by simp
    with parts show ?thesis by blast
  qed
qed

lemma phoneSearch_shape:
  "phoneSearch text = Some m \<Longrightarrow>
   \<exists>sign d tail pre post. m = sign @ d # tail \<and> (sign = [] \<or> sign = ''+'' \<or> sign = ''('') \<and>
      isDigit d \<and> 6 \<le> length tail \<and> list_all phoneChar tail \<and> text = pre @ m @ post"
proof (induction "text")
  case Nil
  then show ?case by simp
next
  case (Cons c cs)
  show ?case
  proof (cases "phoneAt (c # cs)")
    case (Some m')
    with Cons.prems have "phoneAt (c # cs) = Some m" by simp
    from phoneAt_shape [OF this] obtain sign d tail post where
      parts: "m = sign @ d # tail" "sign = [] \<or> sign = ''+'' \<or> sign = ''(''" "isDigit d"
        "6 \<le> length tail" "list_all phoneChar tail" "c # cs = m @ post"
      by blast
    then have "c # cs = [] @ m @ post" by simp
    with parts show ?thesis by blast
  next
    case None
    with Cons.prems have "phoneSearch cs = Some m" by simp
    from Cons.IH [OF this] obtain sign d tail pre post where
      parts: "m = sign @ d # tail" "sign = [] \<or> sign = ''+'' \<or> sign = ''(''" "isDigit d"
        "6 \<le> length tail" "list_all phoneChar tail" "cs = pre @ m @ post"
      by blast
    then have "c # cs = (c # pre) @ m @ post" by simp
    with parts show ?thesis by blast
  qed
qed

lemma scanButtons_source:
  "scanButtons bs \<noteq> [] \<Longrightarrow>
   \<exists>b \<in> set bs. \<exists>m. phoneSearch (fst b @ '' '' @ (case snd b of None \<Rightarrow> [] | Some l \<Rightarrow> l)) = Some m \<and>
      scanButtons bs = trim m"
proof (induction bs)
  case Nil
  then show ?case by simp
next
  case (Cons b bs)
  obtain t l where b: "b = (t, l)" by (cases b)
  show ?case
  proof (cases "phoneSearch (t @ '' '' @ (case l of None \<Rightarrow> [] | Some l \<Rightarrow> l))")
    case None
    with Cons b show ?thesis by auto
  next
    case (Some m)
    with b show ?thesis by auto
  qed
qed

lemma scanSpans_source:
  "scanSpans ss = Some p \<Longrightarrow>
   \<exists>s \<in> set ss. \<exists>m. phoneSearch (trim s) = Some m \<and> p = cleanPhone (trim s)"
  by (induction ss) (auto split: if_splits)

text \<open>
  C6, as the code has it. A match of the scan pattern is an optional \<open>+\<close> or \<open>(\<close>, one
  digit, and at least six more characters, each a digit, white space, a hyphen or a
  parenthesis; it is a part of the scanned text. So it has at least seven characters and
  at least one digit, not necessarily seven digits. The button scan of the detail view
  returns the trimmed match of the first button whose text and label hold one, and the
  span scan of the card accepts the first span whose trimmed text holds one.
\<close>

theorem phone_scan_shape:
  "(phoneSearch text = Some m \<longrightarrow>
      (\<exists>sign d tail pre post. m = sign @ d # tail \<and> (sign = [] \<or> sign = ''+'' \<or> sign = ''('') \<and>
         isDigit d \<and> 6 \<le> length tail \<and> list_all phoneChar tail \<and> text = pre @ m @ post)) \<and>
   (scanButtons bs \<noteq> [] \<longrightarrow>
      (\<exists>b \<in> set bs. \<exists>m'. phoneSearch (fst b @ '' '' @ (case snd b of None \<Rightarrow> [] | Some l \<Rightarrow> l)) = Some m' \<and>
         scanButtons bs = trim m')) \<and>
   (scanSpans ss = Some p \<longrightarrow>
      (\<exists>s \<in> set ss. \<exists>m'. phoneSearch (trim s) = Some m' \<and> p = cleanPhone (trim s)))"
  using phoneSearch_shape scanButtons_source scanSpans_source by blast

theorem phone_scan_shape_witness:
  "phoneSearch ''10 - 20 min '' = Some ''10 - 20 '' \<and>
   scanButtons [(''10 - 20 min'', None)] \<noteq> [] \<and>
   scanSpans [''10 - 20 min''] = Some ''10 - 20'' \<and>
   (\<exists>sign d tail pre post. ''10 - 20 '' = sign @ d # tail \<and> (sign = [] \<or> sign = ''+'' \<or> sign = ''('') \<and>
         isDigit d \<and> 6 \<le> length tail \<and> list_all phoneChar tail \<and> ''10 - 20 min '' = pre @ ''10 - 20 '' @ post) \<and>
   (\<exists>b \<in> set [(''10 - 20 min'', None)]. \<exists>m'. phoneSearch (fst b @ '' '' @ (case snd b of None \<Rightarrow> [] | Some l \<Rightarrow> l)) = Some m' \<and>
         scanButtons [(''10 - 20 min'', None)] = trim m') \<and>
   (\<exists>s \<in> set [''10 - 20 min'']. \<exists>m'. phoneSearch (trim s) = Some m' \<and> ''10 - 20'' = cleanPhone (trim s))"
proof -
  have a: "phoneSearch ''10 - 20 min '' = Some ''10 - 20 ''" by code_simp
  have b: "scanButtons [(''10 - 20 min'', None)] \<noteq> []" by code_simp
  have c: "scanSpans [''10 - 20 min''] = Some ''10 - 20''" by code_simp
  show ?thesis
    using a b c
      phone_scan_shape [of "''10 - 20 min ''" "''10 - 20 ''" "[(''10 - 20 min'', None)]"
        "[''10 - 20 min'']" "''10 - 20''"]
    by blast
qed

text \<open>
  The claim C6 as stated fails: the button text \<open>10 - 20 min\<close> is accepted, and the
  match has four digits. \<open>extractPhone\<close> then returns \<open>10 - 20\<close> as the phone.
\<close>

theorem phone_scan_counterexample:
  "phoneSearch (''10 - 20 min'' @ '' '' @ []) = Some ''10 - 20 '' \<and>
   length (filter isDigit ''10 - 20 '') = 4 \<and>
   scanButtons (buttons delivery_doc) = ''10 - 20'' \<and>
   extractPhone delivery_doc = ''10 - 20'' \<and>
   scanSpans [''10 - 20 min''] = Some ''10 - 20''"
  by code_simp

subsection \<open>The detail-ready wait\<close>

lemma pollDetail_skip:
  "\<not> panelReady p (docAt (e + 100)) \<Longrightarrow> e + 100 < DETAIL_TIMEOUT \<Longrightarrow>
   pollDetail p docAt e = pollDetail p docAt (e + 100)"
  by (subst pollDetail.simps) simp

lemma pollDetail_quiet:
  "(\<forall>j. i < j \<and> j \<le> k \<longrightarrow> \<not> panelReady p (docAt (100 * j))) \<Longrightarrow> i \<le> k \<Longrightarrow> k < 30 \<Longrightarrow>
   pollDetail p docAt (100 * i) = pollDetail p docAt (100 * k)"
proof (induction k)
  case 0
  then show ?case by simp
next
  case (Suc k)
  show ?case
  proof (cases "i = Suc k")
    case True
    then show ?thesis by simp
  next
    case False
    with Suc.prems have ik: "i \<le> k" and k: "k < 30" by simp_all
    have quiet: "\<forall>j. i < j \<and> j \<le> k \<longrightarrow> \<not> panelReady p (docAt (100 * j))"
      using Suc.prems(1) by simp
    have "\<not> panelReady p (docAt (100 * Suc k))"
      using Suc.prems(1) [rule_format, of "Suc k"] ik by simp
    then have "\<not> panelReady p (docAt (100 * k + 100))" by (simp add: add.commute)
    moreover have "100 * k + 100 < DETAIL_TIMEOUT" using Suc.prems(3) by (simp add: DETAIL_TIMEOUT_def)
    ultimately have "pollDetail p docAt (100 * k) = pollDetail p docAt (100 * k + 100)"
      by (rule pollDetail_skip)
    with Suc.IH [OF quiet ik k] show ?thesis by simp
  qed
qed

lemma wait_times_out:
  assumes "\<forall>j \<in> {1..30}. \<not> panelReady p (docAt (100 * j))"
  shows "waitForDetailPanel p docAt = (detailH1 p (docAt 3000) \<noteq> None, 3000)"
proof -
  have "pollDetail p docAt (100 * 0) = pollDetail p docAt (100 * 29)"
    using assms by (intro pollDetail_quiet) auto
  moreover have "\<not> panelReady p (docAt 3000)" using assms by (auto dest: bspec [of _ _ 30])
  then have "pollDetail p docAt 2900 = (detailH1 p (docAt 3000) \<noteq> None, 3000)"
    by (subst pollDetail.simps) (simp add: DETAIL_TIMEOUT_def)
  ultimately show ?thesis by (simp add: waitForDetailPanel_def)
qed

lemma wait_resolves_early:
  assumes "k \<in> {1..30}" "panelReady p (docAt (100 * k))"
    and "\<forall>j \<in> {1..<k}. \<not> panelReady p (docAt (100 * j))"
  shows "waitForDetailPanel p docAt = (True, 100 * k)"
proof -
  from assms(1) obtain k' where k: "k = Suc k'" and k': "k' < 30"
    by (cases k) auto
  have "pollDetail p docAt (100 * 0) = pollDetail p docAt (100 * k')"
    using assms(3) k k' by (intro pollDetail_quiet) auto
  moreover have "panelReady p (docAt (100 * k' + 100))"
    using assms(2) k by (simp add: add.commute)
  then have "pollDetail p docAt (100 * k') = (True, 100 * k' + 100)"
    by (subst pollDetail.simps) simp
  ultimately show ?thesis using k by (simp add: waitForDetailPanel_def)
qed

lemma detailH1_found:
  "(detailH1 p d \<noteq> None) =
   (\<exists>h \<in> set (h1s d). trim h \<noteq> [] \<and> trim h \<noteq> ''Results'' \<and> trim h \<noteq> ''Google Maps'' \<and> trim h \<noteq> p)"
  by (auto simp: detailH1_def find_None_iff Let_def)

text \<open>
  C7, as the code has it. If the panel is ready at none of the thirty polls, the wait
  resolves at 3000 ms, with true exactly when some heading at that poll has a trimmed
  text that is not empty, is not a placeholder and differs from the previous name. If the
  panel is ready at poll \<open>k\<close> and at no earlier poll, the wait resolves true at that
  poll. Ready means such a heading together with an action button, a tab strip or the
  hotel header.
\<close>

theorem detail_wait_semantics:
  "((\<forall>j \<in> {1..30}. \<not> panelReady p (docAt (100 * j))) \<longrightarrow>
      waitForDetailPanel p docAt =
        ((\<exists>h \<in> set (h1s (docAt 3000)).
            trim h \<noteq> [] \<and> trim h \<noteq> ''Results'' \<and> trim h \<noteq> ''Google Maps'' \<and> trim h \<noteq> p),
         3000)) \<and>
   (k \<in> {1..30} \<and> panelReady p (docAt (100 * k)) \<and>
    (\<forall>j \<in> {1..<k}. \<not> panelReady p (docAt (100 * j))) \<longrightarrow>
      waitForDetailPanel p docAt = (True, 100 * k)) \<and>
   panelReady p d =
     ((\<exists>h \<in> set (h1s d).
         trim h \<noteq> [] \<and> trim h \<noteq> ''Results'' \<and> trim h \<noteq> ''Google Maps'' \<and> trim h \<noteq> p) \<and>
      (actionButton d \<or> tablist d \<or> hotelHeader d))"
  using wait_times_out [of p docAt] wait_resolves_early [of k p docAt]
  by (simp add: detailH1_found [symmetric] panelReady_def)

text \<open>
  The claim C7 as stated fails: the page shows the valid title Cafe at timeout, the
  previous name is Cafe, and the wait resolves false.
\<close>

theorem detail_wait_counterexample:
  "validTitle (cafe_page 3000) \<and>
   \<not> panelReady ''Cafe'' cafe_doc \<and>
   waitForDetailPanel ''Cafe'' cafe_page = (False, 3000)"
proof -
  have never: "\<not> panelReady ''Cafe'' cafe_doc" by code_simp
  have title: "validTitle (cafe_page 3000)" by code_simp
  have none: "\<not> (detailH1 ''Cafe'' (cafe_page 3000) \<noteq> None)" by code_simp
  have "\<forall>j \<in> {1..30}. \<not> panelReady ''Cafe'' (cafe_page (100 * j))"
    using never by (simp add: cafe_page_def)
  from wait_times_out [OF this] none never title show ?thesis by simp
qed

theorem detail_wait_semantics_witness:
  "\<not> panelReady ''Cafe'' (cafe_page 3000) \<and>
   waitForDetailPanel ''Cafe'' cafe_page = (False, 3000) \<and>
   \<not> panelReady [] (late_page 100) \<and>
   panelReady [] (late_page (100 * 2)) \<and>
   waitForDetailPanel [] late_page = (True, 100 * 2)"
proof -
  note timeout = detail_wait_semantics [of "''Cafe''" cafe_page 0 cafe_doc]
  note early = detail_wait_semantics [of "[]" late_page 2 cafe_doc]
  have never: "\<not> panelReady ''Cafe'' cafe_doc" by code_simp
  then have quiet: "\<forall>j \<in> {1..30}. \<not> panelReady ''Cafe'' (cafe_page (100 * j))"
    by (simp add: cafe_page_def)
  have title: "\<not> (\<exists>h \<in> set (h1s (cafe_page 3000)).
      trim h \<noteq> [] \<and> trim h \<noteq> ''Results'' \<and> trim h \<noteq> ''Google Maps'' \<and> trim h \<noteq> ''Cafe'')"
    by (simp add: cafe_page_def cafe_doc_def trim_def isSpace_def)
  have ready: "panelReady [] (late_page (100 * 2))" by code_simp
  have unready: "\<not> panelReady [] (late_page 100)" by code_simp
  moreover have "{1..<2::nat} = {1}" by auto
  ultimately have before: "\<forall>j \<in> {1..<2}. \<not> panelReady [] (late_page (100 * j))"
    by simp
  have two: "(2::nat) \<in> {1..30}" by simp
  from quiet title timeout have a: "waitForDetailPanel ''Cafe'' cafe_page = (False, 3000)"
    by simp
  from two ready before early have b: "waitForDetailPanel [] late_page = (True, 100 * 2)"
    by blast
  from never have c: "\<not> panelReady ''Cafe'' (cafe_page 3000)" by (simp add: cafe_page_def)
  from a b c ready unready show ?thesis by blast
qed

subsection \<open>The record store\<close>

lemmas engine_ops =
  log_def send_def sendCount_def sendProgress_def sendComplete_def sendError_def
  downloadFile_def exportCSV_def exportExcelCSV_def exportJSON_def stop_def reset_def

lemma keptOrCleared_refl: "keptOrCleared e e"
  by (simp add: keptOrCleared_def)

lemma keptOrCleared_trans:
  "keptOrCleared e e1 \<Longrightarrow> keptOrCleared e1 e2 \<Longrightarrow> keptOrCleared e e2"
  by (auto simp: keptOrCleared_def)

lemma keptOrCleared_log: "keptOrCleared e (log l e') = keptOrCleared e e'"
  by (simp add: keptOrCleared_def log_def)

lemma keptOrCleared_send: "keptOrCleared e (send m e') = keptOrCleared e e'"
  by (simp add: keptOrCleared_def send_def)

lemma handle_kept: "keptOrCleared e (snd (handle c e))"
  by (cases c) (simp_all add: keptOrCleared_def engine_ops Let_def)

lemma deliver_kept: "keptOrCleared e (deliver cs e)"
proof (induction cs arbitrary: e)
  case Nil
  show ?case by (simp add: keptOrCleared_refl)
next
  case (Cons c cs)
  show ?case
    using keptOrCleared_trans [OF handle_kept [of e c] Cons.IH [of "snd (handle c e)"]]
    by simp
qed

lemma resumed_kept: "keptOrCleared e (resumed u l pg e)"
proof -
  have "keptOrCleared e (deliver (duringWait pg) e)" by (rule deliver_kept)
  then have "keptOrCleared e
      (if \<not> l then log (LogDetailNotLoaded u) (deliver (duringWait pg) e)
       else deliver (duringWait pg) e)"
    by (simp add: keptOrCleared_log)
  from keptOrCleared_trans [OF this deliver_kept] show ?thesis
    by (simp add: resumed_def Let_def)
qed

lemma dedupOK_kept: "keptOrCleared e e' \<Longrightarrow> dedupOK e \<Longrightarrow> dedupOK e'"
  by (auto simp: keptOrCleared_def dedupOK_def)

lemma namesOK_kept: "keptOrCleared e e' \<Longrightarrow> namesOK e \<Longrightarrow> namesOK e'"
  by (auto simp: keptOrCleared_def namesOK_def)

lemma kept_urls: "keptOrCleared e e' \<Longrightarrow> scrapedUrls e' \<subseteq> scrapedUrls e"
  by (auto simp: keptOrCleared_def)

lemma scrapeCard_duplicate:
  "getUniqueUrl (href c) \<in> scrapedUrls e \<Longrightarrow> scrapeCard c e = (Inr False, e)"
  by (simp add: scrapeCard_def)

lemma scrapeCard_throws:
  "getUniqueUrl (href c) \<notin> scrapedUrls e \<Longrightarrow> visit c = Inl msg \<Longrightarrow>
   scrapeCard c e = (Inl msg, e)"
  by (simp add: scrapeCard_def)

lemma extracted_name: "name (extractAllData d) = extractName d"
  by (simp add: extractAllData_def)

lemma scrapeCard_unchanged:
  "getUniqueUrl (href c) \<notin> scrapedUrls e \<Longrightarrow> visit c = Inr pg \<Longrightarrow>
   extractName (settled pg) = extractName (before pg) \<Longrightarrow> extractName (before pg) \<noteq> [] \<Longrightarrow>
   scrapeCard c e =
     (Inr False,
      log (LogDuplicateContent (extractName (before pg)))
        (resumed (getUniqueUrl (href c))
           (fst (waitForDetailPanel (extractName (before pg)) (pollAt pg))) pg e))"
  by (simp add: scrapeCard_def Let_def)

lemma scrapeCard_nameless:
  "getUniqueUrl (href c) \<notin> scrapedUrls e \<Longrightarrow> visit c = Inr pg \<Longrightarrow>
   extractName (settled pg) = [] \<Longrightarrow>
   \<not> (extractName (settled pg) = extractName (before pg) \<and> extractName (before pg) \<noteq> []) \<Longrightarrow>
   scrapeCard c e =
     (Inr False,
      resumed (getUniqueUrl (href c))
        (fst (waitForDetailPanel (extractName (before pg)) (pollAt pg))) pg e)"
  by (auto simp: scrapeCard_def Let_def extracted_name)

lemma scrapeCard_commits:
  assumes "getUniqueUrl (href c) \<notin> scrapedUrls e" "visit c = Inr pg"
    and "extractName (settled pg) \<noteq> []"
    and "\<not> (extractName (settled pg) = extractName (before pg) \<and> extractName (before pg) \<noteq> [])"
  shows "\<exists>r. fst (scrapeCard c e) = Inr True \<and>
     name r = extractName (settled pg) \<and> url r = href c \<and> scrapedAt r = clock pg \<and>
     (let e3 = resumed (getUniqueUrl (href c))
                 (fst (waitForDetailPanel (extractName (before pg)) (pollAt pg))) pg e;
          e' = snd (scrapeCard c e)
      in scrapedData e' = scrapedData e3 @ [r] \<and>
         scrapedUrls e' = insert (getUniqueUrl (href c)) (scrapedUrls e3) \<and>
         outbox e' = outbox e3 @ [UpdateCount (length (scrapedData e3) + 1)] \<and>
         isRunning e' = isRunning e3 \<and> downloads e' = downloads e3)"
  using assms by (simp add: scrapeCard_def Let_def extracted_name engine_ops)

lemma scrapeCard_result:
  "(fst (scrapeCard c e) \<noteq> Inr True \<and> keptOrCleared e (snd (scrapeCard c e))) \<or>
   (fst (scrapeCard c e) = Inr True \<and> getUniqueUrl (href c) \<notin> scrapedUrls e \<and>
    (\<exists>e3 r. keptOrCleared e e3 \<and> name r \<noteq> [] \<and> url r = href c \<and>
       scrapedData (snd (scrapeCard c e)) = scrapedData e3 @ [r] \<and>
       scrapedUrls (snd (scrapeCard c e)) = insert (getUniqueUrl (href c)) (scrapedUrls e3)))"
proof (cases "getUniqueUrl (href c) \<in> scrapedUrls e")
  case True
  then show ?thesis by (simp add: scrapeCard_duplicate keptOrCleared_refl)
next
  case fresh: False
  show ?thesis
  proof (cases "visit c")
    case (Inl msg)
    with fresh show ?thesis by (simp add: scrapeCard_throws keptOrCleared_refl)
  next
    case (Inr pg)
    let ?e3 = "resumed (getUniqueUrl (href c))
        (fst (waitForDetailPanel (extractName (before pg)) (pollAt pg))) pg e"
    have kept: "keptOrCleared e ?e3" by (rule resumed_kept)
    consider (same) "extractName (settled pg) = extractName (before pg)"
        "extractName (before pg) \<noteq> []"
      | (nameless) "extractName (settled pg) = []"
        "\<not> (extractName (settled pg) = extractName (before pg) \<and> extractName (before pg) \<noteq> [])"
      | (named) "extractName (settled pg) \<noteq> []"
        "\<not> (extractName (settled pg) = extractName (before pg) \<and> extractName (before pg) \<noteq> [])"
      by blast
    then show ?thesis
    proof cases
      case same
      from scrapeCard_unchanged [OF fresh Inr same] kept show ?thesis
        by (simp add: keptOrCleared_log)
    next
      case nameless
      from scrapeCard_nameless [OF fresh Inr nameless] kept show ?thesis by simp
    next
      case named
      from scrapeCard_commits [OF fresh Inr named] obtain r where
        "fst (scrapeCard c e) = Inr True" "name r = extractName (settled pg)" "url r = href c"
        "scrapedData (snd (scrapeCard c e)) = scrapedData ?e3 @ [r]"
        "scrapedUrls (snd (scrapeCard c e)) = insert (getUniqueUrl (href c)) (scrapedUrls ?e3)"
        by (auto simp: Let_def)
      with named(1) kept fresh show ?thesis by auto
    qed
  qed
qed

lemma scrapeCard_dedupOK:
  assumes "dedupOK e"
  shows "dedupOK (snd (scrapeCard c e))"
proof -
  from scrapeCard_result [of c e] show ?thesis
  proof (elim disjE conjE exE)
    assume "keptOrCleared e (snd (scrapeCard c e))"
    with assms show ?thesis by (rule dedupOK_kept [rotated])
  next
    fix e3 r
    assume fresh: "getUniqueUrl (href c) \<notin> scrapedUrls e" and kept: "keptOrCleared e e3"
      and r: "url r = href c"
      and data: "scrapedData (snd (scrapeCard c e)) = scrapedData e3 @ [r]"
      and urls: "scrapedUrls (snd (scrapeCard c e)) = insert (getUniqueUrl (href c)) (scrapedUrls e3)"
    from kept assms have ok3: "dedupOK e3" by (rule dedupOK_kept)
    from kept_urls [OF kept] fresh have "getUniqueUrl (href c) \<notin> scrapedUrls e3" by blast
    with ok3 r data urls show ?thesis
      by (auto simp: dedupOK_def canonicalKey_def)
  qed
qed

lemma scrapeCard_namesOK:
  assumes "namesOK e"
  shows "namesOK (snd (scrapeCard c e))"
proof -
  from scrapeCard_result [of c e] show ?thesis
  proof (elim disjE conjE exE)
    assume "keptOrCleared e (snd (scrapeCard c e))"
    with assms show ?thesis by (rule namesOK_kept [rotated])
  next
    fix e3 r
    assume kept: "keptOrCleared e e3" and r: "name r \<noteq> []"
      and data: "scrapedData (snd (scrapeCard c e)) = scrapedData e3 @ [r]"
    from kept assms have "namesOK e3" by (rule namesOK_kept)
    with r data show ?thesis by (auto simp: namesOK_def)
  qed
qed

lemma storeOK_kept: "keptOrCleared e e' \<Longrightarrow> storeOK e \<Longrightarrow> storeOK e'"
  by (auto simp: storeOK_def dest: dedupOK_kept namesOK_kept)

lemma storeOK_other_fields:
  "storeOK (e\<lparr>outbox := out\<rparr>) = storeOK e"
  "storeOK (e\<lparr>console := con\<rparr>) = storeOK e"
  "storeOK (e\<lparr>isRunning := run\<rparr>) = storeOK e"
  "storeOK (e\<lparr>downloads := dl\<rparr>) = storeOK e"
  by (simp_all add: storeOK_def dedupOK_def namesOK_def)

lemma scrapeCard_storeOK: "storeOK e \<Longrightarrow> storeOK (snd (scrapeCard c e))"
  by (simp add: storeOK_def scrapeCard_dedupOK scrapeCard_namesOK)

lemma forBody_storeOK: "storeOK (eng (fst st)) \<Longrightarrow> storeOK (eng (fst (forBody i n c st)))"
proof -
  assume ok: "storeOK (eng (fst st))"
  let ?e1 = "sendProgress (ScrapingCard (Suc i) n) (eng (fst st))"
  have "storeOK ?e1" using ok by (simp add: storeOK_other_fields engine_ops)
  then have a: "storeOK (snd (scrapeCard c ?e1))" by (rule scrapeCard_storeOK)
  then have b: "storeOK (case fst (scrapeCard c ?e1) of
                      Inl msg \<Rightarrow> log (LogCardError msg) (snd (scrapeCard c ?e1))
                    | Inr scraped \<Rightarrow> snd (scrapeCard c ?e1))"
    by (cases "fst (scrapeCard c ?e1)") (simp_all add: storeOK_other_fields log_def)
  show ?thesis
    using ok storeOK_kept [OF deliver_kept b, of "afterwards c"]
    by (simp add: forBody_def Let_def)
qed

lemma forCards_storeOK:
  "storeOK (eng (fst st)) \<Longrightarrow> storeOK (eng (fst (forCards i n todo st)))"
  by (induction todo arbitrary: i st) (simp_all add: forBody_storeOK)

lemma scanCards_storeOK: "storeOK (eng ls) \<Longrightarrow> storeOK (eng (fst (scanCards r ls)))"
  unfolding scanCards_def Let_def
  by (rule forCards_storeOK) (simp add: storeOK_other_fields engine_ops)

lemma afterCards_storeOK:
  "storeOK (eng (fst st)) \<Longrightarrow> storeOK (eng (snd (afterCards r st)))"
  using storeOK_kept [OF deliver_kept, of "sendProgress Scrolling (eng (fst st))"]
  by (auto simp: afterCards_def Let_def engine_ops storeOK_other_fields split: sum.splits)

lemma cycle_storeOK: "storeOK (eng ls) \<Longrightarrow> storeOK (eng (snd (cycle r ls)))"
  by (simp add: cycle_def afterCards_storeOK scanCards_storeOK)

lemma whileRunning_storeOK:
  "storeOK (eng ls) \<Longrightarrow> storeOK (eng (snd (whileRunning rs ls)))"
proof (induction rs arbitrary: ls)
  case Nil
  then show ?case by simp
next
  case (Cons r rs)
  from Cons.prems have step: "storeOK (eng (snd (cycle r ls)))" by (rule cycle_storeOK)
  show ?case
  proof (cases "cycle r ls")
    case (Pair x ls')
    with step have "storeOK (eng ls')" by simp
    with Cons.IH [of ls'] Cons.prems Pair show ?thesis by (cases x) simp_all
  qed
qed

lemma start_storeOK: "storeOK e \<Longrightarrow> storeOK (start w e)"
proof -
  assume ok: "storeOK e"
  let ?ls = "\<lparr>eng = log LogStarted (e\<lparr>isRunning := True\<rparr>), lastProcessedIndex = 0,
              consecutiveScrollFails = 0\<rparr>"
  have "storeOK (eng ?ls)" using ok by (simp add: storeOK_other_fields log_def)
  then have "storeOK (eng (snd (whileRunning (passes w) ?ls)))" by (rule whileRunning_storeOK)
  with ok show ?thesis
    by (auto simp: start_def Let_def engine_ops storeOK_other_fields
          split: option.splits exit.splits)
qed

lemma listener_storeOK: "storeOK e \<Longrightarrow> storeOK (snd (listener w req e))"
  using storeOK_kept [OF handle_kept]
  by (cases req) (simp_all add: listener_def start_storeOK)

lemma session_storeOK: "storeOK e \<Longrightarrow> storeOK (session requests e)"
  by (induction requests arbitrary: e) (auto simp: listener_storeOK)

lemma constructor_storeOK: "storeOK constructor"
  by (simp add: storeOK_def dedupOK_def namesOK_def constructor_def)

lemma str_split_first:
  "\<exists>pieces. str_split sep s = takeWhile (\<lambda>c. c \<noteq> sep) s # pieces"
  by (induction s) (auto split: list.splits)

lemma getUniqueUrl_takeWhile: "getUniqueUrl u = takeWhile (\<lambda>c. c \<noteq> CHR ''?'') u"
proof -
  from str_split_first [of "CHR ''?''" u] obtain pieces where
    "str_split (CHR ''?'') u = takeWhile (\<lambda>c. c \<noteq> CHR ''?'') u # pieces" ..
  then show ?thesis by (simp add: getUniqueUrl_def)
qed

lemma takeWhile_stop: "\<not> P y \<Longrightarrow> takeWhile P (xs @ y # ys) = takeWhile P xs"
  by (induction xs) simp_all

lemma getUniqueUrl_query: "getUniqueUrl (u @ CHR ''?'' # q) = getUniqueUrl u"
  by (simp add: getUniqueUrl_takeWhile takeWhile_stop)

lemma one_per_key:
  "distinct (map f xs) \<Longrightarrow> length (filter (\<lambda>x. f x = k) xs) \<le> 1"
proof (induction xs)
  case Nil
  then show ?case by simp
next
  case (Cons x xs)
  show ?case
  proof (cases "f x = k")
    case True
    with Cons.prems have "\<forall>y \<in> set xs. f y \<noteq> k" by (auto simp: image_iff)
    then have "filter (\<lambda>x. f x = k) xs = []" by (simp add: filter_empty_conv)
    with True show ?thesis by simp
  next
    case False
    with Cons show ?thesis by simp
  qed
qed

lemma filter_length_mono:
  "(\<And>x. P x \<Longrightarrow> Q x) \<Longrightarrow> length (filter P xs) \<le> length (filter Q xs)"
  by (induction xs) auto

lemma session_dedupOK: "dedupOK (session requests constructor)"
  using session_storeOK [OF constructor_storeOK] by (simp add: storeOK_def)


text \<open>
  Deduplication for calls of \<open>scrapeCard\<close> that do not overlap. After any session of
  requests on a new scraper object, whatever the pages show, no two records have the
  same canonical key, and the keys of the records are exactly the set of scraped urls; a
  call of \<open>scrapeCard\<close> that runs from its key test to its end with only stop, reset,
  status and export commands in between keeps this. A call on a card whose key is in the
  set returns false and leaves the object as it is. The key is the link up to its first
  question mark, so links that differ only after it have the same key, and at most one
  record has one of two such links.
\<close>

theorem dedup_in_sequence:
  "distinct (map canonicalKey (scrapedData (session requests constructor))) \<and>
   set (map canonicalKey (scrapedData (session requests constructor))) =
     scrapedUrls (session requests constructor) \<and>
   (dedupOK e \<longrightarrow> dedupOK (snd (scrapeCard c e))) \<and>
   (getUniqueUrl (href c) \<in> scrapedUrls e \<longrightarrow> scrapeCard c e = (Inr False, e)) \<and>
   getUniqueUrl u = takeWhile (\<lambda>ch. ch \<noteq> CHR ''?'') u \<and>
   getUniqueUrl (u @ ''?'' @ q1) = getUniqueUrl (u @ ''?'' @ q2) \<and>
   length (filter (\<lambda>r. url r = u @ ''?'' @ q1 \<or> url r = u @ ''?'' @ q2)
             (scrapedData (session requests constructor))) \<le> 1"
proof -
  let ?final = "session requests constructor"
  have ok: "dedupOK ?final" by (rule session_dedupOK)
  have same: "getUniqueUrl (u @ ''?'' @ q1) = getUniqueUrl (u @ ''?'' @ q2)"
    by (simp add: getUniqueUrl_query)
  have "length (filter (\<lambda>r. url r = u @ ''?'' @ q1 \<or> url r = u @ ''?'' @ q2) (scrapedData ?final))
        \<le> length (filter (\<lambda>r. canonicalKey r = getUniqueUrl u) (scrapedData ?final))"
    by (rule filter_length_mono) (auto simp: canonicalKey_def getUniqueUrl_query)
  also have "\<dots> \<le> 1" using ok by (intro one_per_key) (simp add: dedupOK_def)
  finally have one: "length (filter (\<lambda>r. url r = u @ ''?'' @ q1 \<or> url r = u @ ''?'' @ q2)
      (scrapedData ?final)) \<le> 1" .
  have step: "dedupOK e \<longrightarrow> dedupOK (snd (scrapeCard c e))"
    by (simp add: scrapeCard_dedupOK)
  have skip: "getUniqueUrl (href c) \<in> scrapedUrls e \<longrightarrow> scrapeCard c e = (Inr False, e)"
    by (simp add: scrapeCard_duplicate)
  from ok have "distinct (map canonicalKey (scrapedData ?final))"
    and "set (map canonicalKey (scrapedData ?final)) = scrapedUrls ?final"
    by (simp_all add: dedupOK_def)
  with step skip same one getUniqueUrl_takeWhile [of u] show ?thesis by blast
qed

lemma roma_commit:
  "scrapeCard card_en constructor =
     (Inr True,
      \<lparr>scrapedData =
         [\<lparr>name = ''Pizza Roma'', phone = ''10 - 20'', website = [], address = [],
           rating = [], reviews = [],
           url = ''https://www.google.com/maps/place/A?hl=en'',
           scrapedAt = ''2024-05-01T10:00:00.000Z''\<rparr>],
       scrapedUrls = {''https://www.google.com/maps/place/A''}, isRunning = False,
       outbox = [UpdateCount 1],
       console = [LogScraped ''Pizza Roma'' ''10 - 20'' []], downloads = []\<rparr>)"
  by code_simp

theorem dedup_in_sequence_witness:
  "dedupOK constructor \<and>
   dedupOK (snd (scrapeCard card_en constructor)) \<and>
   getUniqueUrl (href card_fr) \<in> scrapedUrls (snd (scrapeCard card_en constructor)) \<and>
   scrapeCard card_fr (snd (scrapeCard card_en constructor)) =
     (Inr False, snd (scrapeCard card_en constructor)) \<and>
   length (scrapedData (session [(two_links_world, StartScraping)] constructor)) = 1 \<and>
   length (filter (\<lambda>r. url r = ''https://www.google.com/maps/place/A'' @ ''?'' @ ''hl=en'' \<or>
                        url r = ''https://www.google.com/maps/place/A'' @ ''?'' @ ''hl=fr'')
             (scrapedData (session [(two_links_world, StartScraping)] constructor))) \<le> 1"
proof -
  have a: "dedupOK constructor" by (simp add: dedupOK_def constructor_def)
  have b: "getUniqueUrl (href card_fr) \<in> scrapedUrls (snd (scrapeCard card_en constructor))"
    unfolding roma_commit by code_simp
  have c: "length (scrapedData (session [(two_links_world, StartScraping)] constructor)) = 1"
    by code_simp
  show ?thesis
    using a b c
      dedup_in_sequence [of "[(two_links_world, StartScraping)]" constructor card_en
        "''https://www.google.com/maps/place/A''" "''hl=en''" "''hl=fr''"]
      dedup_in_sequence [of "[]" "snd (scrapeCard card_en constructor)" card_fr "[]" "[]" "[]"]
    by simp
qed

subsection \<open>Two loops on one card\<close>

text \<open>
  A call that is not disturbed is its two parts in a row, with the commands of its
  waits handled in between.
\<close>

lemma scrapeCard_segments:
  "scrapeCard c e =
     (case scrapeCardEnter c e of
        Inl returned \<Rightarrow> returned
      | Inr pg \<Rightarrow>
          scrapeCardFinish c pg
            (resumed (getUniqueUrl (href c))
               (fst (waitForDetailPanel (extractName (before pg)) (pollAt pg))) pg e))"
  by (simp add: scrapeCard_def scrapeCardEnter_def scrapeCardFinish_def Let_def
        split: sum.splits)

text \<open>
  C1, canonical-key deduplication: no two committed records share a canonical key. The
  code breaks this when two loops overlap. \<open>scrapeCard\<close> tests the key before its
  waits and commits after them without testing again, and a start is accepted as soon
  as a stop has cleared \<open>isRunning\<close>, while the stopped loop is still suspended. Here
  a first loop calls \<open>scrapeCard\<close> on the card of place A and is suspended; a stop
  and then a start arrive; the second loop calls \<open>scrapeCard\<close> on the same card, whose
  key is not in the set yet, and is suspended too; the first call goes on and commits
  the place; the second call goes on and commits it again. The store then holds two
  records with the one key \<open>https://www.google.com/maps/place/A\<close>.
\<close>

theorem overlapping_scrapes_duplicate:
  "scrapeCardEnter card_en first_loop = Inr roma_page \<and>
   isRunning first_loop = True \<and>
   isRunning stopped_loop = False \<and>
   fst (listener running_world StartScraping stopped_loop) = StatusStarted \<and>
   scrapedData second_loop = [] \<and>
   scrapeCardEnter card_en second_loop = Inr roma_page \<and>
   fst (scrapeCardFinish card_en roma_page second_loop) = Inr True \<and>
   fst (scrapeCardFinish card_en roma_page
          (snd (scrapeCardFinish card_en roma_page second_loop))) = Inr True \<and>
   map canonicalKey
     (scrapedData (snd (scrapeCardFinish card_en roma_page
                          (snd (scrapeCardFinish card_en roma_page second_loop))))) =
     [''https://www.google.com/maps/place/A'', ''https://www.google.com/maps/place/A''] \<and>
   \<not> distinct (map canonicalKey
     (scrapedData (snd (scrapeCardFinish card_en roma_page
                          (snd (scrapeCardFinish card_en roma_page second_loop))))))"
proof -
  have "scrapedUrls first_loop = {}"
    by (simp add: first_loop_def engine_ops constructor_def)
  then have a: "scrapeCardEnter card_en first_loop = Inr roma_page"
    by (simp add: scrapeCardEnter_def card_en_def)
  have b: "isRunning first_loop = True" by code_simp
  have c: "isRunning stopped_loop = False" by code_simp
  from c have d: "fst (listener running_world StartScraping stopped_loop) = StatusStarted"
    by (simp add: listener_def)
  have e: "scrapedData second_loop = []" by code_simp
  have "scrapedUrls second_loop = {}"
    by (simp add: second_loop_def stopped_loop_def first_loop_def engine_ops constructor_def
          Let_def)
  then have f: "scrapeCardEnter card_en second_loop = Inr roma_page"
    by (simp add: scrapeCardEnter_def card_en_def)
  have g: "fst (scrapeCardFinish card_en roma_page second_loop) = Inr True" by code_simp
  have h: "fst (scrapeCardFinish card_en roma_page
          (snd (scrapeCardFinish card_en roma_page second_loop))) = Inr True" by code_simp
  have i: "map canonicalKey
     (scrapedData (snd (scrapeCardFinish card_en roma_page
                          (snd (scrapeCardFinish card_en roma_page second_loop))))) =
     [''https://www.google.com/maps/place/A'', ''https://www.google.com/maps/place/A'']"
    by code_simp
  from i have j: "\<not> distinct (map canonicalKey
     (scrapedData (snd (scrapeCardFinish card_en roma_page
                          (snd (scrapeCardFinish card_en roma_page second_loop))))))"
    by simp
  from a b c d e f g h i j show ?thesis by blast
qed

subsection \<open>The name gate\<close>

lemma scrapeCard_gate:
  "(fst (scrapeCard c e) = Inr True) = (\<exists>n. nameAtGate c e = Some n \<and> n \<noteq> [])"
proof (cases "getUniqueUrl (href c) \<in> scrapedUrls e")
  case True
  then show ?thesis by (simp add: scrapeCard_duplicate nameAtGate_def)
next
  case fresh: False
  show ?thesis
  proof (cases "visit c")
    case (Inl msg)
    with fresh show ?thesis by (simp add: scrapeCard_throws nameAtGate_def)
  next
    case (Inr pg)
    consider (same) "extractName (settled pg) = extractName (before pg)"
        "extractName (before pg) \<noteq> []"
      | (nameless) "extractName (settled pg) = []"
        "\<not> (extractName (settled pg) = extractName (before pg) \<and> extractName (before pg) \<noteq> [])"
      | (named) "extractName (settled pg) \<noteq> []"
        "\<not> (extractName (settled pg) = extractName (before pg) \<and> extractName (before pg) \<noteq> [])"
      by blast
    then show ?thesis
    proof cases
      case same
      from scrapeCard_unchanged [OF fresh Inr same] same fresh Inr show ?thesis
        by (simp add: nameAtGate_def)
    next
      case nameless
      from scrapeCard_nameless [OF fresh Inr nameless] nameless fresh Inr show ?thesis
        by (auto simp: nameAtGate_def)
    next
      case named
      from scrapeCard_commits [OF fresh Inr named] named fresh Inr show ?thesis
        by (auto simp: nameAtGate_def)
    qed
  qed
qed

lemma scrapeCard_commit_effect:
  assumes "nameAtGate c e = Some n" "n \<noteq> []"
  shows "\<exists>r. name r = n \<and> url r = href c \<and>
     scrapedData (snd (scrapeCard c e)) = scrapedData (afterWaits c e) @ [r] \<and>
     scrapedUrls (snd (scrapeCard c e)) =
       insert (getUniqueUrl (href c)) (scrapedUrls (afterWaits c e)) \<and>
     outbox (snd (scrapeCard c e)) =
       outbox (afterWaits c e) @ [UpdateCount (length (scrapedData (afterWaits c e)) + 1)]"
proof -
  from assms(1) have fresh: "getUniqueUrl (href c) \<notin> scrapedUrls e"
    by (auto simp: nameAtGate_def split: if_splits)
  with assms(1) obtain pg where pg: "visit c = Inr pg"
    by (cases "visit c") (auto simp: nameAtGate_def)
  from assms fresh pg have
    changed: "\<not> (extractName (settled pg) = extractName (before pg) \<and> extractName (before pg) \<noteq> [])"
    and n: "extractName (settled pg) = n"
    by (auto simp: nameAtGate_def split: if_splits)
  from n assms(2) have named: "extractName (settled pg) \<noteq> []" by simp
  from scrapeCard_commits [OF fresh pg named changed] n fresh pg show ?thesis
    by (auto simp: afterWaits_def Let_def)
qed

lemma scrapeCard_no_commit:
  assumes "fst (scrapeCard c e) \<noteq> Inr True"
  shows "scrapedData (snd (scrapeCard c e)) = scrapedData (afterWaits c e) \<and>
     scrapedUrls (snd (scrapeCard c e)) = scrapedUrls (afterWaits c e) \<and>
     outbox (snd (scrapeCard c e)) = outbox (afterWaits c e)"
proof (cases "getUniqueUrl (href c) \<in> scrapedUrls e")
  case True
  then show ?thesis by (simp add: scrapeCard_duplicate afterWaits_def)
next
  case fresh: False
  show ?thesis
  proof (cases "visit c")
    case (Inl msg)
    with fresh show ?thesis by (simp add: scrapeCard_throws afterWaits_def)
  next
    case (Inr pg)
    consider (same) "extractName (settled pg) = extractName (before pg)"
        "extractName (before pg) \<noteq> []"
      | (nameless) "extractName (settled pg) = []"
        "\<not> (extractName (settled pg) = extractName (before pg) \<and> extractName (before pg) \<noteq> [])"
      | (named) "extractName (settled pg) \<noteq> []"
        "\<not> (extractName (settled pg) = extractName (before pg) \<and> extractName (before pg) \<noteq> [])"
      by blast
    then show ?thesis
    proof cases
      case same
      from scrapeCard_unchanged [OF fresh Inr same] fresh Inr show ?thesis
        by (simp add: afterWaits_def log_def)
    next
      case nameless
      from scrapeCard_nameless [OF fresh Inr nameless] fresh Inr show ?thesis
        by (simp add: afterWaits_def)
    next
      case named
      from scrapeCard_commits [OF fresh Inr named] assms show ?thesis by auto
    qed
  qed
qed



subsection \<open>The listener\<close>

text \<open>
  C8, as the code has it. The reset command clears the records and the set of scraped
  urls and answers \<open>reset\<close> with count 0 in every state of the scraper object, running
  or not; nothing else of the object changes but the log.
\<close>

theorem reset_in_every_state:
  "listener w (Command ResetData) e =
     (StatusReset 0, e\<lparr>scrapedData := [], scrapedUrls := {}, console := console e @ [LogReset]\<rparr>)"
  by (simp add: listener_def reset_def log_def)

text \<open>
  The claim C8 as stated fails: after one pass over the feed the scraper is running and
  holds one record; the reset command empties the store.
\<close>

theorem reset_while_running_counterexample:
  "isRunning (start running_world constructor) \<and>
   length (scrapedData (start running_world constructor)) = 1 \<and>
   fst (listener running_world (Command ResetData) (start running_world constructor)) =
     StatusReset 0 \<and>
   scrapedData (snd (listener running_world (Command ResetData)
                       (start running_world constructor))) = [] \<and>
   scrapedUrls (snd (listener running_world (Command ResetData)
                       (start running_world constructor))) = {}"
proof -
  have "isRunning (start running_world constructor)" by code_simp
  moreover have "length (scrapedData (start running_world constructor)) = 1" by code_simp
  ultimately show ?thesis by (simp add: listener_def reset_def log_def)
qed

text \<open>
  C10. When start is requested while the scraper is not running and the page has no
  feed, the response is \<open>started\<close>, and the scraper object is as before but for one
  \<open>scrapingError\<close> message: it is still not running, has the same records, and no
  \<open>scrapingComplete\<close> message was sent.
\<close>

theorem start_without_feed:
  "\<not> isRunning e \<and> \<not> feed w \<longrightarrow>
   listener w StartScraping e =
     (StatusStarted,
      e\<lparr>outbox := outbox e @
          [ScrapingError ''No search results found. Please search on Google Maps first.'']\<rparr>)"
  by (simp add: listener_def start_def sendError_def send_def)

theorem start_without_feed_witness:
  "\<not> isRunning constructor \<and> \<not> feed no_feed_world \<and>
   listener no_feed_world StartScraping constructor =
     (StatusStarted,
      constructor\<lparr>outbox := outbox constructor @
          [ScrapingError ''No search results found. Please search on Google Maps first.'']\<rparr>) \<and>
   isRunning (snd (listener no_feed_world StartScraping constructor)) = False \<and>
   scrapedData (snd (listener no_feed_world StartScraping constructor)) = [] \<and>
   outbox (snd (listener no_feed_world StartScraping constructor)) =
     [ScrapingError ''No search results found. Please search on Google Maps first.'']"
proof -
  have a: "\<not> isRunning constructor" by (simp add: constructor_def)
  have b: "\<not> feed no_feed_world" by (simp add: no_feed_world_def)
  from a b start_without_feed [of constructor no_feed_world] show ?thesis
    by (simp add: constructor_def)
qed

subsection \<open>The traversal loop\<close>

lemma attempted_append: "attempted (xs @ ys) = attempted xs @ attempted ys"
  by (induction xs) (auto split: message.splits progress.splits)

lemma commits_append: "commits (xs @ ys) = commits xs + commits ys"
  by (induction xs) (auto split: message.splits)

lemma handle_messages:
  "attempted (outbox (snd (handle c e))) = attempted (outbox e) \<and>
   commits (outbox (snd (handle c e))) = commits (outbox e)"
  by (cases c) (simp_all add: engine_ops Let_def attempted_append commits_append)

lemma deliver_messages:
  "attempted (outbox (deliver cs e)) = attempted (outbox e) \<and>
   commits (outbox (deliver cs e)) = commits (outbox e)"
  by (induction cs arbitrary: e) (simp_all add: handle_messages)

lemma resumed_messages:
  "attempted (outbox (resumed u l pg e)) = attempted (outbox e) \<and>
   commits (outbox (resumed u l pg e)) = commits (outbox e)"
  by (simp add: resumed_def Let_def deliver_messages log_def)

lemma afterWaits_messages:
  "attempted (outbox (afterWaits c e)) = attempted (outbox e) \<and>
   commits (outbox (afterWaits c e)) = commits (outbox e)"
  by (simp add: afterWaits_def resumed_messages split: sum.splits)

lemma scrapeCard_messages:
  "attempted (outbox (snd (scrapeCard c e))) = attempted (outbox e) \<and>
   commits (outbox (snd (scrapeCard c e))) =
     commits (outbox e) + (if fst (scrapeCard c e) = Inr True then 1 else 0)"
proof (cases "fst (scrapeCard c e) = Inr True")
  case True
  then obtain n where n: "nameAtGate c e = Some n" "n \<noteq> []"
    using scrapeCard_gate [of c e] by blast
  from scrapeCard_commit_effect [OF n] True show ?thesis
    by (auto simp: attempted_append commits_append afterWaits_messages)
next
  case False
  from scrapeCard_no_commit [OF False] False show ?thesis
    by (simp add: afterWaits_messages)
qed

lemma forBody_index: "lastProcessedIndex (fst (forBody i n c st)) = i + 1"
  by (simp add: forBody_def Let_def)

lemma forBody_fails:
  "consecutiveScrollFails (fst (forBody i n c st)) = consecutiveScrollFails (fst st)"
  by (simp add: forBody_def Let_def)

lemma forBody_attempted:
  "attempted (outbox (eng (fst (forBody i n c st)))) =
   attempted (outbox (eng (fst st))) @
     (if getUniqueUrl (href c) \<in> scrapedUrls (eng (fst st)) then [] else [i + 1])"
proof (cases "getUniqueUrl (href c) \<in> scrapedUrls (eng (fst st))")
  case True
  then show ?thesis by (simp add: forBody_def Let_def)
next
  case False
  let ?e1 = "sendProgress (ScrapingCard (Suc i) n) (eng (fst st))"
  have "attempted (outbox (case fst (scrapeCard c ?e1) of
            Inl msg \<Rightarrow> log (LogCardError msg) (snd (scrapeCard c ?e1))
          | Inr scraped \<Rightarrow> snd (scrapeCard c ?e1))) = attempted (outbox ?e1)"
    by (cases "fst (scrapeCard c ?e1)") (simp_all add: scrapeCard_messages log_def)
  with False show ?thesis
    by (simp add: forBody_def Let_def deliver_messages)
       (simp add: engine_ops attempted_append)
qed

lemma forBody_commits:
  "commits (outbox (eng (fst (forBody i n c st)))) + snd st =
   commits (outbox (eng (fst st))) + snd (forBody i n c st)"
proof (cases "getUniqueUrl (href c) \<in> scrapedUrls (eng (fst st))")
  case True
  then show ?thesis by (simp add: forBody_def Let_def)
next
  case False
  let ?e1 = "sendProgress (ScrapingCard (Suc i) n) (eng (fst st))"
  have e1: "commits (outbox ?e1) = commits (outbox (eng (fst st)))"
    by (simp add: engine_ops commits_append)
  show ?thesis
  proof (cases "fst (scrapeCard c ?e1)")
    case (Inl msg)
    with False e1 scrapeCard_messages [of c ?e1] show ?thesis
      by (simp add: forBody_def Let_def deliver_messages log_def)
  next
    case (Inr scraped)
    with False e1 scrapeCard_messages [of c ?e1] show ?thesis
      by (cases scraped) (simp_all add: forBody_def Let_def deliver_messages)
  qed
qed

lemma forCards_stopped:
  "\<not> isRunning (eng (fst st)) \<Longrightarrow> forCards i n todo st = st"
  by (cases todo) simp_all

lemma forCards_fails:
  "consecutiveScrollFails (fst (forCards i n todo st)) = consecutiveScrollFails (fst st)"
  by (induction todo arbitrary: i st) (simp_all add: forBody_fails)

lemma forCards_index:
  "lastProcessedIndex (fst st) \<le> i \<Longrightarrow>
   lastProcessedIndex (fst st) \<le> lastProcessedIndex (fst (forCards i n todo st)) \<and>
   lastProcessedIndex (fst (forCards i n todo st)) \<le> max (lastProcessedIndex (fst st)) (i + length todo)"
proof (induction todo arbitrary: i st)
  case Nil
  then show ?case by simp
next
  case (Cons c todo)
  show ?case
  proof (cases "isRunning (eng (fst st))")
    case False
    then show ?thesis by simp
  next
    case True
    have "lastProcessedIndex (fst (forBody i n c st)) \<le> i + 1" by (simp add: forBody_index)
    from Cons.IH [OF this] Cons.prems True show ?thesis
      by (simp add: forBody_index)
  qed
qed

lemma forCards_commits:
  "commits (outbox (eng (fst (forCards i n todo st)))) + snd st =
   commits (outbox (eng (fst st))) + snd (forCards i n todo st)"
proof (induction todo arbitrary: i st)
  case Nil
  show ?case by simp
next
  case (Cons c todo)
  show ?case
    using Cons.IH [of "i + 1" "forBody i n c st"] forBody_commits [of i n c st]
    by (cases "isRunning (eng (fst st))") simp_all
qed

lemma forCards_attempted:
  "\<exists>new. attempted (outbox (eng (fst (forCards i n todo st)))) =
           attempted (outbox (eng (fst st))) @ new \<and>
         sorted_wrt (<) new \<and>
         (\<forall>k \<in> set new. i < k \<and> k \<le> lastProcessedIndex (fst (forCards i n todo st)))"
proof (induction todo arbitrary: i st)
  case Nil
  show ?case by simp
next
  case (Cons c todo)
  show ?case
  proof (cases "isRunning (eng (fst st))")
    case False
    then show ?thesis by simp
  next
    case True
    let ?st1 = "forBody i n c st"
    let ?first = "if getUniqueUrl (href c) \<in> scrapedUrls (eng (fst st)) then [] else [i + 1]"
    from Cons.IH [of "i + 1" ?st1] obtain new where
      new: "attempted (outbox (eng (fst (forCards (i + 1) n todo ?st1)))) =
              attempted (outbox (eng (fst ?st1))) @ new"
        "sorted_wrt (<) new"
        "\<forall>k \<in> set new. i + 1 < k \<and> k \<le> lastProcessedIndex (fst (forCards (i + 1) n todo ?st1))"
      by blast
    have reach: "i + 1 \<le> lastProcessedIndex (fst (forCards (i + 1) n todo ?st1))"
      using forCards_index [of ?st1 "i + 1" n todo] by (simp add: forBody_index)
    have "attempted (outbox (eng (fst (forCards i n (c # todo) st)))) =
          attempted (outbox (eng (fst st))) @ (?first @ new)"
      using True new(1) by (simp add: forBody_attempted)
    moreover have "sorted_wrt (<) (?first @ new)"
      using new(2,3) by (auto simp: sorted_wrt_append)
    moreover have "\<forall>k \<in> set (?first @ new).
        i < k \<and> k \<le> lastProcessedIndex (fst (forCards i n (c # todo) st))"
      using True new(3) reach by auto
    ultimately show ?thesis by blast
  qed
qed

lemma scanCards_resume:
  "lastProcessedIndex ls \<le> length (cards r) \<Longrightarrow>
   scanCards r ls =
     forCards (lastProcessedIndex ls) (length (cards r)) (drop (lastProcessedIndex ls) (cards r))
       (ls\<lparr>eng := sendProgress (Processing (length (cards r))) (eng ls)\<rparr>, 0)"
  by (simp add: scanCards_def Let_def)

lemma scanCards_restart:
  "length (cards r) < lastProcessedIndex ls \<Longrightarrow>
   scanCards r ls =
     forCards 0 (length (cards r)) (cards r)
       (ls\<lparr>lastProcessedIndex := 0,
           eng := sendProgress (Processing (length (cards r))) (eng ls)\<rparr>, 0)"
  by (simp add: scanCards_def Let_def)

lemma scanCards_from_zero:
  "length (cards r) < lastProcessedIndex ls \<Longrightarrow>
   scanCards r ls = scanCards r (ls\<lparr>lastProcessedIndex := 0\<rparr>)"
  by (simp add: scanCards_def Let_def)

lemma scanCards_fails:
  "consecutiveScrollFails (fst (scanCards r ls)) = consecutiveScrollFails ls"
  by (simp add: scanCards_def Let_def forCards_fails)

lemma scanCards_index:
  "lastProcessedIndex ls \<le> length (cards r) \<Longrightarrow>
   lastProcessedIndex ls \<le> lastProcessedIndex (fst (scanCards r ls))"
  "lastProcessedIndex (fst (scanCards r ls)) \<le> length (cards r)"
proof -
  let ?n = "length (cards r)"
  let ?out = "sendProgress (Processing ?n) (eng ls)"
  show "lastProcessedIndex (fst (scanCards r ls)) \<le> ?n"
  proof (cases "lastProcessedIndex ls \<le> ?n")
    case True
    from forCards_index [of "(ls\<lparr>eng := ?out\<rparr>, 0)" "lastProcessedIndex ls" ?n
        "drop (lastProcessedIndex ls) (cards r)"] True
    show ?thesis by (simp add: scanCards_resume)
  next
    case False
    from forCards_index [of "(ls\<lparr>lastProcessedIndex := 0, eng := ?out\<rparr>, 0)" 0 ?n "cards r"] False
    show ?thesis by (simp add: scanCards_restart)
  qed
  assume le: "lastProcessedIndex ls \<le> ?n"
  from forCards_index [of "(ls\<lparr>eng := ?out\<rparr>, 0)" "lastProcessedIndex ls" ?n
      "drop (lastProcessedIndex ls) (cards r)"] le
  show "lastProcessedIndex ls \<le> lastProcessedIndex (fst (scanCards r ls))"
    by (simp add: scanCards_resume)
qed

lemma scanCards_commits:
  "commits (outbox (eng (fst (scanCards r ls)))) = commits (outbox (eng ls)) + snd (scanCards r ls)"
proof -
  let ?n = "length (cards r)"
  let ?ls1 = "if ?n < lastProcessedIndex ls then ls\<lparr>lastProcessedIndex := 0\<rparr> else ls"
  let ?st = "(?ls1\<lparr>eng := sendProgress (Processing ?n) (eng ?ls1)\<rparr>, 0::nat)"
  have "commits (outbox (eng (fst ?st))) = commits (outbox (eng ls))"
    by (simp add: engine_ops commits_append)
  with forCards_commits [of "lastProcessedIndex (fst ?st)" ?n
      "drop (lastProcessedIndex (fst ?st)) (cards r)" ?st]
  show ?thesis by (simp add: scanCards_def Let_def)
qed

lemma scanCards_attempted:
  assumes "lastProcessedIndex ls \<le> length (cards r)"
  shows "\<exists>new. attempted (outbox (eng (fst (scanCards r ls)))) =
             attempted (outbox (eng ls)) @ new \<and>
           sorted_wrt (<) new \<and>
           (\<forall>k \<in> set new. lastProcessedIndex ls < k \<and>
                          k \<le> lastProcessedIndex (fst (scanCards r ls)))"
proof -
  let ?n = "length (cards r)"
  let ?st = "(ls\<lparr>eng := sendProgress (Processing ?n) (eng ls)\<rparr>, 0::nat)"
  have "attempted (outbox (eng (fst ?st))) = attempted (outbox (eng ls))"
    by (simp add: engine_ops attempted_append)
  with forCards_attempted [of "lastProcessedIndex ls" ?n
      "drop (lastProcessedIndex ls) (cards r)" ?st]
  show ?thesis by (simp add: scanCards_resume [OF assms])
qed

lemma afterCards_index:
  "lastProcessedIndex (snd (afterCards r st)) = lastProcessedIndex (fst st)"
  by (simp add: afterCards_def Let_def split: sum.splits)

lemma afterCards_attempted:
  "attempted (outbox (eng (snd (afterCards r st)))) = attempted (outbox (eng (fst st)))"
  by (simp add: afterCards_def Let_def deliver_messages engine_ops attempted_append
        split: sum.splits)

lemma afterCards_stall:
  assumes "endOfList r = Inr False" "scroll r = Inr sc" "afterCount sc \<le> beforeCount sc"
    and "snd st = 0"
  shows "fst (afterCards r st) =
           (if MAX_SCROLL_FAILS \<le> consecutiveScrollFails (fst st) + 1
            then Some MaxScrollFails else None)"
    and "consecutiveScrollFails (snd (afterCards r st)) = consecutiveScrollFails (fst st) + 1"
  using assms by (simp_all add: afterCards_def Let_def)

lemma afterCards_progress:
  assumes "endOfList r = Inr False" "scroll r = Inr sc"
    and "beforeCount sc < afterCount sc \<or> 0 < snd st"
  shows "fst (afterCards r st) = None"
    and "consecutiveScrollFails (snd (afterCards r st)) = 0"
  using assms by (auto simp: afterCards_def Let_def)

lemma cycle_stall:
  assumes "noProgress r ls"
  shows "fst (cycle r ls) =
           (if MAX_SCROLL_FAILS \<le> consecutiveScrollFails ls + 1
            then Some MaxScrollFails else None)"
    and "consecutiveScrollFails (snd (cycle r ls)) = consecutiveScrollFails ls + 1"
proof -
  from assms obtain sc where sc: "scroll r = Inr sc" "afterCount sc \<le> beforeCount sc"
    by (cases "scroll r") (auto simp: noProgress_def)
  from assms have e: "endOfList r = Inr False" and z: "snd (scanCards r ls) = 0"
    by (simp_all add: noProgress_def)
  from afterCards_stall [OF e sc z]
  show "fst (cycle r ls) =
           (if MAX_SCROLL_FAILS \<le> consecutiveScrollFails ls + 1
            then Some MaxScrollFails else None)"
    and "consecutiveScrollFails (snd (cycle r ls)) = consecutiveScrollFails ls + 1"
    by (simp_all add: cycle_def scanCards_fails)
qed

lemma cycle_index:
  "lastProcessedIndex ls \<le> length (cards r) \<Longrightarrow>
   lastProcessedIndex ls \<le> lastProcessedIndex (snd (cycle r ls))"
  "lastProcessedIndex (snd (cycle r ls)) \<le> length (cards r)"
  by (simp_all add: cycle_def afterCards_index scanCards_index)

lemma cycle_attempted:
  assumes "lastProcessedIndex ls \<le> length (cards r)"
  shows "\<exists>new. attempted (outbox (eng (snd (cycle r ls)))) = attempted (outbox (eng ls)) @ new \<and>
           sorted_wrt (<) new \<and>
           (\<forall>k \<in> set new. lastProcessedIndex ls < k \<and> k \<le> lastProcessedIndex (snd (cycle r ls)))"
  using scanCards_attempted [OF assms]
  by (simp add: cycle_def afterCards_index afterCards_attempted)

lemma stalled_exit:
  "stalledFor k rs ls \<Longrightarrow> 0 < k \<Longrightarrow> MAX_SCROLL_FAILS \<le> consecutiveScrollFails ls + k \<Longrightarrow>
   fst (whileRunning rs ls) = Some MaxScrollFails"
proof (induction k arbitrary: rs ls)
  case 0
  then show ?case by simp
next
  case (Suc k)
  from Suc.prems(1) obtain r rs' where rs: "rs = r # rs'" by (cases rs) auto
  from Suc.prems(1) rs have run: "isRunning (eng ls)" and np: "noProgress r ls"
    and rest: "fst (cycle r ls) = None \<longrightarrow> stalledFor k rs' (snd (cycle r ls))"
    by simp_all
  show ?case
  proof (cases "MAX_SCROLL_FAILS \<le> consecutiveScrollFails ls + 1")
    case True
    with cycle_stall(1) [OF np] have "fst (cycle r ls) = Some MaxScrollFails" by simp
    with run rs show ?thesis by (cases "cycle r ls") simp
  next
    case False
    with cycle_stall(1) [OF np] have none: "fst (cycle r ls) = None" by simp
    have more: "0 < k" using False Suc.prems(3) by simp
    have bound: "MAX_SCROLL_FAILS \<le> consecutiveScrollFails (snd (cycle r ls)) + k"
      using cycle_stall(2) [OF np] Suc.prems(3) by simp
    from Suc.IH [OF rest [rule_format, OF none] more bound] none run rs show ?thesis
      by (cases "cycle r ls") simp
  qed
qed

lemma whileRunning_index:
  "noShrink rs ls \<Longrightarrow> lastProcessedIndex ls \<le> lastProcessedIndex (snd (whileRunning rs ls))"
proof (induction rs arbitrary: ls)
  case Nil
  show ?case by simp
next
  case (Cons r rs)
  show ?case
  proof (cases "isRunning (eng ls)")
    case False
    then show ?thesis by simp
  next
    case True
    with Cons.prems have le: "lastProcessedIndex ls \<le> length (cards r)"
      and rest: "fst (cycle r ls) = None \<longrightarrow> noShrink rs (snd (cycle r ls))"
      by simp_all
    obtain x ls' where c: "cycle r ls = (x, ls')" by (cases "cycle r ls")
    from cycle_index(1) [OF le] c have step: "lastProcessedIndex ls \<le> lastProcessedIndex ls'"
      by simp
    show ?thesis
    proof (cases x)
      case None
      with rest c have "noShrink rs ls'" by simp
      from Cons.IH [OF this] step True c None show ?thesis by simp
    next
      case (Some ex)
      with step True c show ?thesis by simp
    qed
  qed
qed

lemma whileRunning_attempted:
  "noShrink rs ls \<Longrightarrow>
   \<exists>new. attempted (outbox (eng (snd (whileRunning rs ls)))) = attempted (outbox (eng ls)) @ new \<and>
     sorted_wrt (<) new \<and>
     (\<forall>k \<in> set new. lastProcessedIndex ls < k \<and>
                    k \<le> lastProcessedIndex (snd (whileRunning rs ls)))"
proof (induction rs arbitrary: ls)
  case Nil
  show ?case by simp
next
  case (Cons r rs)
  show ?case
  proof (cases "isRunning (eng ls)")
    case False
    then show ?thesis by simp
  next
    case True
    with Cons.prems have le: "lastProcessedIndex ls \<le> length (cards r)"
      and rest: "fst (cycle r ls) = None \<longrightarrow> noShrink rs (snd (cycle r ls))"
      by simp_all
    obtain x ls' where c: "cycle r ls = (x, ls')" by (cases "cycle r ls")
    from cycle_attempted [OF le] c obtain new1 where
      new1: "attempted (outbox (eng ls')) = attempted (outbox (eng ls)) @ new1"
        "sorted_wrt (<) new1"
        "\<forall>k \<in> set new1. lastProcessedIndex ls < k \<and> k \<le> lastProcessedIndex ls'"
      by auto
    from cycle_index(1) [OF le] c have step: "lastProcessedIndex ls \<le> lastProcessedIndex ls'"
      by simp
    show ?thesis
    proof (cases x)
      case (Some ex)
      with True c new1 show ?thesis by simp
    next
      case None
      with rest c have shrink: "noShrink rs ls'" by simp
      from Cons.IH [OF shrink] obtain new2 where
        new2: "attempted (outbox (eng (snd (whileRunning rs ls')))) =
                 attempted (outbox (eng ls')) @ new2"
          "sorted_wrt (<) new2"
          "\<forall>k \<in> set new2. lastProcessedIndex ls' < k \<and>
                           k \<le> lastProcessedIndex (snd (whileRunning rs ls'))"
        by blast
      have final: "whileRunning (r # rs) ls = whileRunning rs ls'"
        using True c None by simp
      have mono: "lastProcessedIndex ls' \<le> lastProcessedIndex (snd (whileRunning rs ls'))"
        by (rule whileRunning_index [OF shrink])
      have "attempted (outbox (eng (snd (whileRunning (r # rs) ls)))) =
            attempted (outbox (eng ls)) @ (new1 @ new2)"
        using final new1(1) new2(1) by simp
      moreover have "sorted_wrt (<) (new1 @ new2)"
        using new1(2,3) new2(2,3) by (fastforce simp: sorted_wrt_append)
      moreover have "\<forall>k \<in> set (new1 @ new2). lastProcessedIndex ls < k \<and>
          k \<le> lastProcessedIndex (snd (whileRunning (r # rs) ls))"
        using final new1(3) new2(3) step mono by fastforce
      ultimately show ?thesis by blast
    qed
  qed
qed

lemma sorted_less_distinct: "sorted_wrt (<) (xs :: nat list) \<Longrightarrow> distinct xs"
  by (induction xs) auto

text \<open>
  C3, stall termination. If the next \<open>MAX_SCROLL_FAILS\<close> passes of the loop, as far as
  the loop gets to them, each begin with the loop running and end without growth of the
  card count and with \<open>newDataThisRound = 0\<close>, the loop is left by the break of the
  stall branch. A pass without progress adds one to the stall counter and breaks when
  the counter reaches the maximum. A pass that gets to the scroll and either finds more
  cards after it or has committed a record sets the counter to 0 and goes on.
  \<open>newDataThisRound\<close> is the number of commits of the pass: it equals the number of
  count messages sent during the \<open>for\<close> loop.
\<close>

theorem stall_termination:
  "(stalledFor MAX_SCROLL_FAILS rs ls \<longrightarrow> fst (whileRunning rs ls) = Some MaxScrollFails) \<and>
   (noProgress r ls \<longrightarrow>
      consecutiveScrollFails (snd (cycle r ls)) = consecutiveScrollFails ls + 1 \<and>
      fst (cycle r ls) =
        (if MAX_SCROLL_FAILS \<le> consecutiveScrollFails ls + 1
         then Some MaxScrollFails else None)) \<and>
   (endOfList r = Inr False \<and> scroll r = Inr sc \<and>
    (beforeCount sc < afterCount sc \<or> 0 < snd (scanCards r ls)) \<longrightarrow>
      fst (cycle r ls) = None \<and> consecutiveScrollFails (snd (cycle r ls)) = 0) \<and>
   commits (outbox (eng (fst (scanCards r ls)))) =
     commits (outbox (eng ls)) + snd (scanCards r ls)"
proof -
  have a: "stalledFor MAX_SCROLL_FAILS rs ls \<longrightarrow>
      fst (whileRunning rs ls) = Some MaxScrollFails"
    using stalled_exit [of MAX_SCROLL_FAILS rs ls] by (simp add: MAX_SCROLL_FAILS_def)
  have b: "noProgress r ls \<longrightarrow>
      consecutiveScrollFails (snd (cycle r ls)) = consecutiveScrollFails ls + 1 \<and>
      fst (cycle r ls) =
        (if MAX_SCROLL_FAILS \<le> consecutiveScrollFails ls + 1
         then Some MaxScrollFails else None)"
    using cycle_stall [of r ls] by blast
  have c: "endOfList r = Inr False \<and> scroll r = Inr sc \<and>
      (beforeCount sc < afterCount sc \<or> 0 < snd (scanCards r ls)) \<longrightarrow>
      fst (cycle r ls) = None \<and> consecutiveScrollFails (snd (cycle r ls)) = 0"
    using afterCards_progress [of r sc "scanCards r ls"] by (simp add: cycle_def)
  from a b c scanCards_commits [of r ls] show ?thesis by blast
qed

theorem stall_termination_witness:
  "stalledFor MAX_SCROLL_FAILS [empty_pass, empty_pass, empty_pass] running_loop \<and>
   fst (whileRunning [empty_pass, empty_pass, empty_pass] running_loop) =
     Some MaxScrollFails \<and>
   noProgress stalled_pass running_loop \<and>
   consecutiveScrollFails (snd (cycle stalled_pass running_loop)) = 1 \<and>
   fst (cycle stalled_pass running_loop) = None \<and>
   endOfList growing_pass = Inr False \<and>
   scroll growing_pass = Inr \<lparr>beforeCount = 1, duringScroll = [], afterCount = 3\<rparr> \<and>
   consecutiveScrollFails (snd (cycle growing_pass (snd (cycle stalled_pass running_loop)))) = 0"
proof -
  let ?sc = "\<lparr>beforeCount = 1, duringScroll = [], afterCount = 3\<rparr>"
  note first = stall_termination [of "[empty_pass, empty_pass, empty_pass]" running_loop
      stalled_pass "\<lparr>beforeCount = 1, duringScroll = [], afterCount = 1\<rparr>"]
  note second = stall_termination [of "[]" "snd (cycle stalled_pass running_loop)" growing_pass ?sc]
  have a: "stalledFor MAX_SCROLL_FAILS [empty_pass, empty_pass, empty_pass] running_loop"
    by code_simp
  have b: "noProgress stalled_pass running_loop" by code_simp
  have c: "consecutiveScrollFails running_loop = 0" by (simp add: running_loop_def)
  have d: "endOfList growing_pass = Inr False" "scroll growing_pass = Inr ?sc"
    by (simp_all add: growing_pass_def)
  have e: "beforeCount ?sc < afterCount ?sc" by simp
  from a first have exit: "fst (whileRunning [empty_pass, empty_pass, empty_pass]
      running_loop) = Some MaxScrollFails" by blast
  from b first have
    "consecutiveScrollFails (snd (cycle stalled_pass running_loop)) =
       consecutiveScrollFails running_loop + 1"
    "fst (cycle stalled_pass running_loop) =
       (if MAX_SCROLL_FAILS \<le> consecutiveScrollFails running_loop + 1
        then Some MaxScrollFails else None)"
    by blast+
  with c have one: "consecutiveScrollFails (snd (cycle stalled_pass running_loop)) = 1"
    "fst (cycle stalled_pass running_loop) = None"
    by (simp_all add: MAX_SCROLL_FAILS_def)
  from d e second have
    zero: "consecutiveScrollFails
      (snd (cycle growing_pass (snd (cycle stalled_pass running_loop)))) = 0"
    by blast
  from a b d exit one zero show ?thesis by blast
qed

text \<open>
  C4, the cursor. The body of the \<open>for\<close> loop at index \<open>i\<close> leaves \<open>lastProcessedIndex\<close> at
  \<open>i + 1\<close>, and the \<open>for\<close> loop from an index not below it never lowers it. A pass whose
  snapshot is not shorter than the index goes on from the index and does not lower it.
  A pass whose snapshot is shorter than the index runs as from index 0 over all cards
  of the snapshot. Over a run in which no snapshot is shorter than the index, the index
  never falls.
\<close>

theorem cursor_invariant:
  "lastProcessedIndex (fst (forBody i n c (ls, k))) = i + 1 \<and>
   (lastProcessedIndex ls \<le> i \<longrightarrow>
      lastProcessedIndex ls \<le> lastProcessedIndex (fst (forCards i n todo (ls, k)))) \<and>
   (lastProcessedIndex ls \<le> length (cards r) \<longrightarrow>
      scanCards r ls =
        forCards (lastProcessedIndex ls) (length (cards r))
          (drop (lastProcessedIndex ls) (cards r))
          (ls\<lparr>eng := sendProgress (Processing (length (cards r))) (eng ls)\<rparr>, 0) \<and>
      lastProcessedIndex ls \<le> lastProcessedIndex (snd (cycle r ls))) \<and>
   (length (cards r) < lastProcessedIndex ls \<longrightarrow>
      scanCards r ls =
        forCards 0 (length (cards r)) (cards r)
          (ls\<lparr>lastProcessedIndex := 0,
              eng := sendProgress (Processing (length (cards r))) (eng ls)\<rparr>, 0) \<and>
      cycle r ls = cycle r (ls\<lparr>lastProcessedIndex := 0\<rparr>) \<and>
      lastProcessedIndex (snd (cycle r ls)) < lastProcessedIndex ls) \<and>
   (noShrink rs ls \<longrightarrow> lastProcessedIndex ls \<le> lastProcessedIndex (snd (whileRunning rs ls)))"
proof -
  have a: "lastProcessedIndex ls \<le> i \<longrightarrow>
      lastProcessedIndex ls \<le> lastProcessedIndex (fst (forCards i n todo (ls, k)))"
    using forCards_index [of "(ls, k)" i n todo] by simp
  have b: "lastProcessedIndex ls \<le> length (cards r) \<longrightarrow>
      scanCards r ls =
        forCards (lastProcessedIndex ls) (length (cards r))
          (drop (lastProcessedIndex ls) (cards r))
          (ls\<lparr>eng := sendProgress (Processing (length (cards r))) (eng ls)\<rparr>, 0) \<and>
      lastProcessedIndex ls \<le> lastProcessedIndex (snd (cycle r ls))"
    using scanCards_resume [of ls r] cycle_index(1) [of ls r] by blast
  have "length (cards r) < lastProcessedIndex ls \<longrightarrow>
      lastProcessedIndex (snd (cycle r ls)) < lastProcessedIndex ls"
    using cycle_index(2) [of r ls] by simp
  then have c: "length (cards r) < lastProcessedIndex ls \<longrightarrow>
      scanCards r ls =
        forCards 0 (length (cards r)) (cards r)
          (ls\<lparr>lastProcessedIndex := 0,
              eng := sendProgress (Processing (length (cards r))) (eng ls)\<rparr>, 0) \<and>
      cycle r ls = cycle r (ls\<lparr>lastProcessedIndex := 0\<rparr>) \<and>
      lastProcessedIndex (snd (cycle r ls)) < lastProcessedIndex ls"
    using scanCards_restart [of r ls] scanCards_from_zero [of r ls] by (simp add: cycle_def)
  have d: "noShrink rs ls \<longrightarrow>
      lastProcessedIndex ls \<le> lastProcessedIndex (snd (whileRunning rs ls))"
    using whileRunning_index [of rs ls] by blast
  from a b c d forBody_index [of i n c "(ls, k)"] show ?thesis by blast
qed

theorem cursor_invariant_witness:
  "lastProcessedIndex running_loop \<le> 0 \<and>
   lastProcessedIndex running_loop \<le> length (cards stalled_pass) \<and>
   lastProcessedIndex running_loop \<le> lastProcessedIndex (snd (cycle stalled_pass running_loop)) \<and>
   length (cards stalled_pass) < lastProcessedIndex far_loop \<and>
   cycle stalled_pass far_loop = cycle stalled_pass (far_loop\<lparr>lastProcessedIndex := 0\<rparr>) \<and>
   lastProcessedIndex (snd (cycle stalled_pass far_loop)) < lastProcessedIndex far_loop \<and>
   noShrink broken_passes running_loop \<and>
   lastProcessedIndex running_loop \<le> lastProcessedIndex (snd (whileRunning broken_passes running_loop))"
proof -
  note first = cursor_invariant [of 0 1 card_blank running_loop 0 "[]" stalled_pass broken_passes]
  note second = cursor_invariant [of 0 1 card_blank far_loop 0 "[]" stalled_pass "[]"]
  have a: "lastProcessedIndex running_loop \<le> 0" by (simp add: running_loop_def)
  have b: "lastProcessedIndex running_loop \<le> length (cards stalled_pass)"
    by (simp add: running_loop_def)
  have c: "length (cards stalled_pass) < lastProcessedIndex far_loop"
    by (simp add: far_loop_def stalled_pass_def)
  have d: "noShrink broken_passes running_loop" by code_simp
  from b first have e:
    "lastProcessedIndex running_loop \<le> lastProcessedIndex (snd (cycle stalled_pass running_loop))"
    by blast
  from d first have f:
    "lastProcessedIndex running_loop \<le> lastProcessedIndex (snd (whileRunning broken_passes running_loop))"
    by blast
  from c second have g:
    "cycle stalled_pass far_loop = cycle stalled_pass (far_loop\<lparr>lastProcessedIndex := 0\<rparr>)"
    "lastProcessedIndex (snd (cycle stalled_pass far_loop)) < lastProcessedIndex far_loop"
    by blast+
  from a b c d e f g show ?thesis by blast
qed

text \<open>
  C5, never replay. The body of the \<open>for\<close> loop at index \<open>i\<close> leaves the index at
  \<open>i + 1\<close> also when the visit of the card throws: the error is logged, one attempt is
  recorded for card number \<open>i + 1\<close>, and \<open>newDataThisRound\<close> stays. When the scraper is
  no longer running after the body, the \<open>for\<close> loop ends there, with the index at
  \<open>i + 1\<close>. Over a run in which no snapshot is shorter than the index, the card numbers
  of the attempts are strictly increasing, each above the index the run began with: no
  index is attempted twice.
\<close>

theorem never_replay:
  "(visit c = Inl msg \<and> getUniqueUrl (href c) \<notin> scrapedUrls (eng ls) \<longrightarrow>
      lastProcessedIndex (fst (forBody i n c (ls, k))) = i + 1 \<and>
      snd (forBody i n c (ls, k)) = k \<and>
      attempted (outbox (eng (fst (forBody i n c (ls, k))))) =
        attempted (outbox (eng ls)) @ [i + 1]) \<and>
   (isRunning (eng ls) \<and> \<not> isRunning (eng (fst (forBody i n c (ls, k)))) \<longrightarrow>
      forCards i n (c # todo) (ls, k) = forBody i n c (ls, k) \<and>
      lastProcessedIndex (fst (forCards i n (c # todo) (ls, k))) = i + 1) \<and>
   (noShrink rs ls \<longrightarrow>
      (\<exists>new. attempted (outbox (eng (snd (whileRunning rs ls)))) =
                attempted (outbox (eng ls)) @ new \<and>
              sorted_wrt (<) new \<and> distinct new \<and>
              (\<forall>j \<in> set new. lastProcessedIndex ls < j \<and>
                             j \<le> lastProcessedIndex (snd (whileRunning rs ls)))))"
proof -
  have a: "visit c = Inl msg \<and> getUniqueUrl (href c) \<notin> scrapedUrls (eng ls) \<longrightarrow>
      lastProcessedIndex (fst (forBody i n c (ls, k))) = i + 1 \<and>
      snd (forBody i n c (ls, k)) = k \<and>
      attempted (outbox (eng (fst (forBody i n c (ls, k))))) =
        attempted (outbox (eng ls)) @ [i + 1]"
  proof (intro impI, elim conjE)
    assume thrown: "visit c = Inl msg" and fresh: "getUniqueUrl (href c) \<notin> scrapedUrls (eng ls)"
    let ?e1 = "sendProgress (ScrapingCard (Suc i) n) (eng ls)"
    have "getUniqueUrl (href c) \<notin> scrapedUrls ?e1" using fresh by (simp add: engine_ops)
    from scrapeCard_throws [OF this thrown] fresh have "snd (forBody i n c (ls, k)) = k"
      by (simp add: forBody_def Let_def)
    with fresh forBody_index [of i n c "(ls, k)"] forBody_attempted [of i n c "(ls, k)"]
    show "lastProcessedIndex (fst (forBody i n c (ls, k))) = i + 1 \<and>
      snd (forBody i n c (ls, k)) = k \<and>
      attempted (outbox (eng (fst (forBody i n c (ls, k))))) =
        attempted (outbox (eng ls)) @ [i + 1]"
      by simp
  qed
  have b: "isRunning (eng ls) \<and> \<not> isRunning (eng (fst (forBody i n c (ls, k)))) \<longrightarrow>
      forCards i n (c # todo) (ls, k) = forBody i n c (ls, k) \<and>
      lastProcessedIndex (fst (forCards i n (c # todo) (ls, k))) = i + 1"
    using forCards_stopped [of "forBody i n c (ls, k)" "i + 1" n todo]
      forBody_index [of i n c "(ls, k)"]
    by simp
  have c: "noShrink rs ls \<longrightarrow>
      (\<exists>new. attempted (outbox (eng (snd (whileRunning rs ls)))) =
                attempted (outbox (eng ls)) @ new \<and>
              sorted_wrt (<) new \<and> distinct new \<and>
              (\<forall>j \<in> set new. lastProcessedIndex ls < j \<and>
                             j \<le> lastProcessedIndex (snd (whileRunning rs ls))))"
  proof
    assume "noShrink rs ls"
    from whileRunning_attempted [OF this] obtain new where
      new: "attempted (outbox (eng (snd (whileRunning rs ls)))) =
              attempted (outbox (eng ls)) @ new"
        "sorted_wrt (<) new"
        "\<forall>j \<in> set new. lastProcessedIndex ls < j \<and>
                       j \<le> lastProcessedIndex (snd (whileRunning rs ls))"
      by blast
    from new(2) have "distinct new" by (rule sorted_less_distinct)
    with new show "\<exists>new. attempted (outbox (eng (snd (whileRunning rs ls)))) =
                attempted (outbox (eng ls)) @ new \<and>
              sorted_wrt (<) new \<and> distinct new \<and>
              (\<forall>j \<in> set new. lastProcessedIndex ls < j \<and>
                             j \<le> lastProcessedIndex (snd (whileRunning rs ls)))"
      by blast
  qed
  from a b c show ?thesis by blast
qed

theorem never_replay_witness:
  "visit card_broken = Inl ''Cannot read properties of null'' \<and>
   getUniqueUrl (href card_broken) \<notin> scrapedUrls (eng running_loop) \<and>
   lastProcessedIndex (fst (forBody 0 2 card_broken (running_loop, 0))) = 0 + 1 \<and>
   attempted (outbox (eng (fst (forBody 0 2 card_broken (running_loop, 0))))) =
     attempted (outbox (eng running_loop)) @ [0 + 1] \<and>
   noShrink broken_passes running_loop \<and>
   attempted (outbox (eng (snd (whileRunning broken_passes running_loop)))) = [1, 2] \<and>
   sorted_wrt (<) (attempted (outbox (eng (snd (whileRunning broken_passes running_loop))))) \<and>
   distinct (attempted (outbox (eng (snd (whileRunning broken_passes running_loop)))))"
proof -
  note inst = never_replay [of card_broken "''Cannot read properties of null''" running_loop
      0 2 0 "[]" broken_passes]
  have a: "visit card_broken = Inl ''Cannot read properties of null''"
    by (simp add: card_broken_def)
  have b: "getUniqueUrl (href card_broken) \<notin> scrapedUrls (eng running_loop)"
    by (simp add: running_loop_def constructor_def)
  have c: "noShrink broken_passes running_loop" by code_simp
  have d: "attempted (outbox (eng (snd (whileRunning broken_passes running_loop)))) = [1, 2]"
    by code_simp
  have none: "attempted (outbox (eng running_loop)) = []"
    by (simp add: running_loop_def constructor_def)
  from a b inst have e:
    "lastProcessedIndex (fst (forBody 0 2 card_broken (running_loop, 0))) = 0 + 1"
    "attempted (outbox (eng (fst (forBody 0 2 card_broken (running_loop, 0))))) =
       attempted (outbox (eng running_loop)) @ [0 + 1]"
    by blast+
  from c inst obtain new where
    "attempted (outbox (eng (snd (whileRunning broken_passes running_loop)))) =
       attempted (outbox (eng running_loop)) @ new"
    "sorted_wrt (<) new" "distinct new"
    by blast
  with none have f:
    "sorted_wrt (<) (attempted (outbox (eng (snd (whileRunning broken_passes running_loop)))))"
    "distinct (attempted (outbox (eng (snd (whileRunning broken_passes running_loop)))))"
    by simp_all
  from a b c d e f show ?thesis by blast
qed

end
